theory Spec2Isabelle
  imports Complex_Main "HOL-Library.Word" "HOL-Library.Multiset"
begin

section \<open>The password generator of script.js\<close>

text \<open>
  A shallow embedding of the password core of \<^verbatim>\<open>script.js\<close>: the character sets, the
  random source \<^verbatim>\<open>secureRandomInt\<close>, \<^verbatim>\<open>pickOne\<close>, \<^verbatim>\<open>shuffleInPlace\<close>, \<^verbatim>\<open>buildPools\<close> and
  \<^verbatim>\<open>generatePassword\<close>. The clock, the weather widget, the clipboard and the wiring of the
  page do not take part in generation and are left out.
\<close>

subsection \<open>Character sets and options\<close>

text \<open>The four fields of the constant object \<^verbatim>\<open>CHARSETS\<close>.\<close>

definition CHARSETS_upper :: string where
  "CHARSETS_upper = ''ABCDEFGHIJKLMNOPQRSTUVWXYZ''"

definition CHARSETS_lower :: string where
  "CHARSETS_lower = ''abcdefghijklmnopqrstuvwxyz''"

definition CHARSETS_numbers :: string where
  "CHARSETS_numbers = ''0123456789''"

definition CHARSETS_symbols :: string where
  "CHARSETS_symbols = ''!@#$%^&*()-_=+[]{};:,.<>?/|~''"

text \<open>The object \<^verbatim>\<open>{ upper, lower, numbers, symbols }\<close> that \<^verbatim>\<open>getSelectedOptions\<close> builds
  from the four checkboxes.\<close>

record options =
  upper :: bool
  lower :: bool
  numbers :: bool
  symbols :: bool

text \<open>\<^verbatim>\<open>buildPools\<close>: four tests in a fixed order, each pushing one character set.\<close>

definition buildPools :: "options \<Rightarrow> string list" where
  "buildPools opts =
     (let pools = [];
          pools = (if upper opts then pools @ [CHARSETS_upper] else pools);
          pools = (if lower opts then pools @ [CHARSETS_lower] else pools);
          pools = (if numbers opts then pools @ [CHARSETS_numbers] else pools);
          pools = (if symbols opts then pools @ [CHARSETS_symbols] else pools)
      in pools)"

subsection \<open>The platform: random generators, doubles, strings and arrays\<close>

text \<open>
  A number that \<^verbatim>\<open>Math.random()\<close> can return: a double in \<open>[0, 1)\<close>. Every such double is
  \<open>mantissa * 2^-(53 + shift)\<close> for a mantissa below \<open>2^53\<close> and a shift of at most 1021
  (the last bit of the smallest doubles has the weight \<open>2^-1074\<close>), and every number of
  that form is a double in \<open>[0, 1)\<close>; a larger shift is read as 1021. So 0.5 is the
  mantissa \<open>2^52\<close> with the shift 0.
\<close>

record unitDouble =
  mantissa :: "53 word"
  shift :: nat

text \<open>The number of binary digits of a positive integer.\<close>

function bitLength :: "int \<Rightarrow> nat" where
  "bitLength n = (if n \<le> 0 then 0 else Suc (bitLength (n div 2)))"
  by pat_completeness auto
termination
  by (relation "measure nat") auto

declare bitLength.simps [simp del]

text \<open>\<open>n / 2^s\<close> rounded to the nearest integer, a tie going to the even one.\<close>

definition roundHalfEven :: "int \<Rightarrow> nat \<Rightarrow> int" where
  "roundHalfEven n s =
     (let f = n div 2 ^ s; r = n mod 2 ^ s in
      if 2 * r < 2 ^ s then f
      else if 2 ^ s < 2 * r then f + 1
      else if even f then f else f + 1)"

text \<open>
  \<^verbatim>\<open>Math.floor(x * maxExclusive)\<close> in double arithmetic, for \<open>x\<close> in \<open>[0, 1)\<close> and a positive
  integer \<open>maxExclusive\<close> (itself a double: every integer below \<open>2^53\<close> is one). The exact
  product is \<open>n * 2^-q\<close> with \<open>n = mantissa * maxExclusive\<close>. With at most 53 binary
  digits in \<open>n\<close> it is a double and the multiplication is exact; otherwise the
  multiplication rounds it to 53 significant digits, to the nearest double and on a tie
  to the one with an even last digit. \<^verbatim>\<open>Math.floor\<close> of the rounded product is exact.
\<close>

definition mulFloor :: "unitDouble \<Rightarrow> int \<Rightarrow> int" where
  "mulFloor x maxExclusive =
     (let q = 53 + min (shift x) 1021;
          n = uint (mantissa x) * maxExclusive;
          b = bitLength n
      in if b \<le> 53 then n div 2 ^ q
         else (roundHalfEven n (b - 53) * 2 ^ (b - 53)) div 2 ^ q)"

text \<open>
  What the browser supplies. \<open>hasCrypto\<close> says whether \<^verbatim>\<open>window.crypto\<close> and its
  \<^verbatim>\<open>getRandomValues\<close> exist; \<open>getRandomValues e k\<close> is the unsigned 32-bit value that the
  \<open>k\<close>-th call writes into the one-element \<^verbatim>\<open>Uint32Array\<close>; \<open>mathRandom e k\<close> is the double
  that the \<open>k\<close>-th call of \<^verbatim>\<open>Math.random()\<close> returns. The state threaded through every
  function is the number of values drawn so far.
\<close>

record env =
  hasCrypto :: bool
  getRandomValues :: "nat \<Rightarrow> 32 word"
  mathRandom :: "nat \<Rightarrow> unitDouble"

text \<open>The exceptions: \<^verbatim>\<open>new Error(message)\<close>, thrown by \<^verbatim>\<open>secureRandomInt\<close>, and the
  \<^verbatim>\<open>RangeError\<close> of an array that would grow beyond the greatest array length.\<close>

datatype js_error = Error string | RangeError

text \<open>
  An element of the array \<^verbatim>\<open>chars\<close>: a string, or \<^verbatim>\<open>undefined\<close>, which is what indexing a
  string or an array out of range gives. An array is the list of its elements, of at
  most \<open>2^32 - 1\<close> of them.
\<close>

datatype jsval = Undefined | Str string

definition maxArrayLength :: int where
  "maxArrayLength = 2 ^ 32 - 1"

text \<open>\<^verbatim>\<open>str[i]\<close> on a string.\<close>

definition charAt :: "string \<Rightarrow> int \<Rightarrow> jsval" where
  "charAt str i = (if 0 \<le> i \<and> i < int (length str) then Str [str ! nat i] else Undefined)"

text \<open>\<^verbatim>\<open>array[i]\<close> read and written. Writing at or beyond the length extends the array,
  the elements in between being holes (read as \<^verbatim>\<open>undefined\<close>); a negative index, or one
  that is no array index (\<open>2^32 - 1\<close> and above), names a property of the object, not an
  element.\<close>

definition arrayGet :: "jsval list \<Rightarrow> int \<Rightarrow> jsval" where
  "arrayGet array i = (if 0 \<le> i \<and> i < int (length array) then array ! nat i else Undefined)"

definition arraySet :: "jsval list \<Rightarrow> int \<Rightarrow> jsval \<Rightarrow> jsval list" where
  "arraySet array i v =
     (if i < 0 then array
      else if i < int (length array) then array[nat i := v]
      else if maxArrayLength \<le> i then array
      else array @ replicate (nat i - length array) Undefined @ [v])"

text \<open>\<^verbatim>\<open>chars.join("")\<close>: \<^verbatim>\<open>undefined\<close> elements contribute the empty string.\<close>

definition join :: "jsval list \<Rightarrow> string" where
  "join array = concat (map (\<lambda>v. case v of Undefined \<Rightarrow> [] | Str s \<Rightarrow> s) array)"

text \<open>The decimal numeral that a template literal prints for a non-negative integer.\<close>

fun string_of_nat :: "nat \<Rightarrow> string" where
  "string_of_nat n =
     (if n < 10 then [''0123456789'' ! n]
      else string_of_nat (n div 10) @ [''0123456789'' ! (n mod 10)])"

declare string_of_nat.simps [simp del]

subsection \<open>secureRandomInt\<close>

text \<open>
  The loop \<^verbatim>\<open>while (true)\<close> of \<^verbatim>\<open>secureRandomInt\<close>: draw, return on a value below \<open>limit\<close>,
  draw again otherwise. It need not return: \<open>None\<close> is the loop that runs forever.
\<close>

partial_function (option) rejectionLoop ::
  "(nat \<Rightarrow> 32 word) \<Rightarrow> int \<Rightarrow> int \<Rightarrow> nat \<Rightarrow> (int \<times> nat) option" where
  "rejectionLoop draws limit maxExclusive k =
     (let value = uint (draws k) in
      if value < limit then Some (value mod maxExclusive, Suc k)
      else rejectionLoop draws limit maxExclusive (Suc k))"

declare rejectionLoop.simps [code]

text \<open>
  \<^verbatim>\<open>secureRandomInt(maxExclusive)\<close>. The argument is an integer here
  (\<^verbatim>\<open>str.length\<close> or \<^verbatim>\<open>i + 1\<close> at every call), so of the test
  \<^verbatim>\<open>!Number.isInteger(maxExclusive) || maxExclusive <= 0\<close> the second half decides.
  The result is \<open>None\<close> when the call never returns, \<open>Some (Inl err)\<close> when it throws,
  \<open>Some (Inr (n, k'))\<close> when it returns \<open>n\<close> having drawn up to \<open>k'\<close>.
\<close>

definition uint32Max :: int where
  "uint32Max = 0xffffffff"

definition secureRandomInt :: "env \<Rightarrow> int \<Rightarrow> nat \<Rightarrow> (js_error + int \<times> nat) option" where
  "secureRandomInt e maxExclusive k =
     (if maxExclusive \<le> 0 then Some (Inl (Error ''maxExclusive must be a positive integer''))
      else if \<not> hasCrypto e then
        Some (Inr (mulFloor (mathRandom e k) maxExclusive, Suc k))
      else
        (let limit = uint32Max - uint32Max mod maxExclusive in
         map_option Inr (rejectionLoop (getRandomValues e) limit maxExclusive k)))"

subsection \<open>pickOne and shuffleInPlace\<close>

definition pickOne :: "env \<Rightarrow> string \<Rightarrow> nat \<Rightarrow> (js_error + jsval \<times> nat) option" where
  "pickOne e str k =
     (case secureRandomInt e (int (length str)) k of
        None \<Rightarrow> None
      | Some (Inl err) \<Rightarrow> Some (Inl err)
      | Some (Inr (i, k')) \<Rightarrow> Some (Inr (charAt str i, k')))"

text \<open>\<^verbatim>\<open>[array[i], array[j]] = [array[j], array[i]]\<close>: both reads, then both writes.\<close>

definition swapAt :: "jsval list \<Rightarrow> int \<Rightarrow> int \<Rightarrow> jsval list" where
  "swapAt array i j =
     (let aj = arrayGet array j; ai = arrayGet array i
      in arraySet (arraySet array i aj) j ai)"

text \<open>The loop of \<^verbatim>\<open>shuffleInPlace\<close>, by its counter \<open>i\<close>: it stops at \<open>i = 0\<close>.\<close>

fun shuffleLoop :: "env \<Rightarrow> nat \<Rightarrow> jsval list \<Rightarrow> nat \<Rightarrow> (js_error + jsval list \<times> nat) option" where
  "shuffleLoop e 0 array k = Some (Inr (array, k))"
| "shuffleLoop e (Suc n) array k =
     (case secureRandomInt e (int (Suc n) + 1) k of
        None \<Rightarrow> None
      | Some (Inl err) \<Rightarrow> Some (Inl err)
      | Some (Inr (j, k')) \<Rightarrow> shuffleLoop e n (swapAt array (int (Suc n)) j) k')"

text \<open>The counter starts at \<^verbatim>\<open>array.length - 1\<close>; on the empty array that is \<open>-1\<close> and the
  loop does not run, as with the truncated subtraction here.\<close>

definition shuffleInPlace :: "env \<Rightarrow> jsval list \<Rightarrow> nat \<Rightarrow> (js_error + jsval list \<times> nat) option" where
  "shuffleInPlace e array k = shuffleLoop e (length array - 1) array k"

subsection \<open>generatePassword\<close>

text \<open>The object \<^verbatim>\<open>{ password, error }\<close> that \<^verbatim>\<open>generatePassword\<close> returns.\<close>

record result =
  password :: string
  error :: string

text \<open>\<^verbatim>\<open>pools.map((pool) => pickOne(pool))\<close>, left to right.\<close>

fun mapPickOne :: "env \<Rightarrow> string list \<Rightarrow> nat \<Rightarrow> (js_error + jsval list \<times> nat) option" where
  "mapPickOne e [] k = Some (Inr ([], k))"
| "mapPickOne e (pool # pools) k =
     (case pickOne e pool k of
        None \<Rightarrow> None
      | Some (Inl err) \<Rightarrow> Some (Inl err)
      | Some (Inr (c, k')) \<Rightarrow>
          (case mapPickOne e pools k' of
             None \<Rightarrow> None
           | Some (Inl err) \<Rightarrow> Some (Inl err)
           | Some (Inr (cs, k'')) \<Rightarrow> Some (Inr (c # cs, k''))))"

text \<open>
  \<^verbatim>\<open>while (chars.length < length) chars.push(pickOne(combinedPool))\<close>. The argument of
  \<^verbatim>\<open>push\<close> is evaluated first; \<^verbatim>\<open>push\<close> on an array of the greatest length throws a
  \<^verbatim>\<open>RangeError\<close>.
\<close>

function fillLoop ::
  "env \<Rightarrow> string \<Rightarrow> int \<Rightarrow> jsval list \<Rightarrow> nat \<Rightarrow> (js_error + jsval list \<times> nat) option" where
  "fillLoop e combinedPool len chars k =
     (if int (length chars) < len then
        (case pickOne e combinedPool k of
           None \<Rightarrow> None
         | Some (Inl err) \<Rightarrow> Some (Inl err)
         | Some (Inr (c, k')) \<Rightarrow>
             if maxArrayLength \<le> int (length chars) then Some (Inl RangeError)
             else fillLoop e combinedPool len (chars @ [c]) k')
      else Some (Inr (chars, k)))"
  by pat_completeness auto
termination
  by (relation "measure (\<lambda>(e, combinedPool, len, chars, k). nat (len - int (length chars)))") auto

declare fillLoop.simps [simp del]

definition generatePassword ::
  "env \<Rightarrow> int \<Rightarrow> options \<Rightarrow> nat \<Rightarrow> (js_error + result \<times> nat) option" where
  "generatePassword e len opts k =
     (let pools = buildPools opts in
      if length pools = 0 then
        Some (Inr (\<lparr>password = '''', error = ''Select at least one character option.''\<rparr>, k))
      else if len < int (length pools) then
        Some (Inr (\<lparr>password = '''',
                    error = ''Length must be at least '' @ string_of_nat (length pools)
                            @ '' to include each selected type.''\<rparr>, k))
      else
        (case mapPickOne e pools k of
           None \<Rightarrow> None
         | Some (Inl err) \<Rightarrow> Some (Inl err)
         | Some (Inr (chars, k1)) \<Rightarrow>
             (let combinedPool = concat pools in
              if combinedPool = [] then
                Some (Inr (\<lparr>password = '''',
                            error = ''No characters available with current options.''\<rparr>, k1))
              else
                (case fillLoop e combinedPool len chars k1 of
                   None \<Rightarrow> None
                 | Some (Inl err) \<Rightarrow> Some (Inl err)
                 | Some (Inr (chars2, k2)) \<Rightarrow>
                     (case shuffleInPlace e chars2 k2 of
                        None \<Rightarrow> None
                      | Some (Inl err) \<Rightarrow> Some (Inl err)
                      | Some (Inr (chars3, k3)) \<Rightarrow>
                          Some (Inr (\<lparr>password = join chars3, error = ''''\<rparr>, k3)))))))"

subsection \<open>Notions of the specification\<close>

text \<open>
  The definitions of this subsection follow the words of the specification, not the
  code; the theorems below compare the code with them.
\<close>

text \<open>The acceptance bound as the specification writes it:
  \<open>limit = 2^32 - (2^32 mod maxExclusive)\<close>.\<close>

definition spec_limit :: "int \<Rightarrow> int" where
  "spec_limit maxExclusive = 2 ^ 32 - (2 ^ 32 mod maxExclusive)"

text \<open>
  The random source as the specification words it: draw a value; below the
  specification's limit return it modulo \<open>maxExclusive\<close>, otherwise discard it and draw
  again.
\<close>

definition spec_uniformInt :: "env \<Rightarrow> int \<Rightarrow> nat \<Rightarrow> (js_error + int \<times> nat) option" where
  "spec_uniformInt e maxExclusive k =
     map_option Inr (rejectionLoop (getRandomValues e) (spec_limit maxExclusive) maxExclusive k)"

text \<open>The character classes of the specification's data model, each bound to its fixed
  sequence of characters, and the membership of a class in an option set.\<close>

datatype charClass = Upper | Lower | Digit | Symbol

fun pool_of :: "charClass \<Rightarrow> string" where
  "pool_of Upper = CHARSETS_upper"
| "pool_of Lower = CHARSETS_lower"
| "pool_of Digit = CHARSETS_numbers"
| "pool_of Symbol = CHARSETS_symbols"

fun enabled :: "options \<Rightarrow> charClass \<Rightarrow> bool" where
  "enabled opts Upper = upper opts"
| "enabled opts Lower = lower opts"
| "enabled opts Digit = numbers opts"
| "enabled opts Symbol = symbols opts"

text \<open>An array element that is one character of the given pool.\<close>

definition isCharOf :: "string \<Rightarrow> jsval \<Rightarrow> bool" where
  "isCharOf pool v \<longleftrightarrow> (\<exists>ch \<in> set pool. v = Str [ch])"

text \<open>
  The shuffle as the specification words it: for each index \<open>i\<close> of a given sequence of
  indices, draw \<open>j = uniformInt(i + 1)\<close> and swap the positions \<open>i\<close> and \<open>j\<close>. The
  specification runs it on the indices from \<open>length - 1\<close> down to 1.
\<close>

fun spec_fisherYates ::
  "env \<Rightarrow> nat list \<Rightarrow> jsval list \<Rightarrow> nat \<Rightarrow> (js_error + jsval list \<times> nat) option" where
  "spec_fisherYates e [] buffer k = Some (Inr (buffer, k))"
| "spec_fisherYates e (i # indices) buffer k =
     (case secureRandomInt e (int i + 1) k of
        None \<Rightarrow> None
      | Some (Inl err) \<Rightarrow> Some (Inl err)
      | Some (Inr (j, k')) \<Rightarrow> spec_fisherYates e indices (swapAt buffer (int i) j) k')"

subsection \<open>The calls of a request and the draws that serve them\<close>

text \<open>
  What follows is read off the code, to say on which streams of draws the rejection loops
  of a request return; the theorems on \<^verbatim>\<open>generatePassword\<close> prove that it says so exactly.
\<close>

text \<open>
  The bounds of the calls of the random source that a valid request of a given length
  makes, in their order: the size of each selected pool, the size of the combined pool
  once for each filler, and for the shuffle \<open>length\<close>, \<open>length - 1\<close>, and so on down to 2.
\<close>

definition requestBounds :: "int \<Rightarrow> options \<Rightarrow> int list" where
  "requestBounds len opts =
     (let pools = buildPools opts in
      map (\<lambda>pool. int (length pool)) pools
      @ replicate (nat len - length pools) (int (length (concat pools)))
      @ map int (rev [2..<Suc (nat len)]))"

text \<open>
  The stream of draws serves a sequence of calls, from a position on: for the first
  bound there is a first draw at or after the position that is below the bound's limit,
  and the stream serves the remaining calls from the position after that draw. This is
  what a stream must do for the rejection loops of the calls to return, one after the
  other.
\<close>

fun drawsServe :: "(nat \<Rightarrow> 32 word) \<Rightarrow> int list \<Rightarrow> nat \<Rightarrow> bool" where
  "drawsServe draws [] k = True"
| "drawsServe draws (m # ms) k =
     (\<exists>n. (\<forall>i<n. \<not> uint (draws (k + i)) < uint32Max - uint32Max mod m)
        \<and> uint (draws (k + n)) < uint32Max - uint32Max mod m
        \<and> drawsServe draws ms (Suc (k + n)))"

text \<open>The generator in use serves a sequence of calls: the secure stream where there is
  one; \<^verbatim>\<open>Math.random\<close> serves every call.\<close>

definition served :: "env \<Rightarrow> int list \<Rightarrow> nat \<Rightarrow> bool" where
  "served e ms k \<longleftrightarrow> (hasCrypto e \<longrightarrow> drawsServe (getRandomValues e) ms k)"

section \<open>The random source: lemmas\<close>

lemma rejectionLoop_first:
  "(\<forall>i<n. \<not> uint (draws (k + i)) < limit) \<Longrightarrow> uint (draws (k + n)) < limit \<Longrightarrow>
   rejectionLoop draws limit m k = Some (uint (draws (k + n)) mod m, Suc (k + n))"
proof (induction n arbitrary: k)
  case 0
  then show ?case by (subst rejectionLoop.simps) simp
next
  case (Suc n)
  from Suc.prems(1) have rej: "\<not> uint (draws k) < limit" by (metis add.right_neutral zero_less_Suc)
  have "\<forall>i<n. \<not> uint (draws (Suc k + i)) < limit"
  proof (intro allI impI)
    fix i assume "i < n"
    then have "Suc i < Suc n" by simp
    with Suc.prems(1) have "\<not> uint (draws (k + Suc i)) < limit" by blast
    then show "\<not> uint (draws (Suc k + i)) < limit" by simp
  qed
  moreover from Suc.prems(2) have "uint (draws (Suc k + n)) < limit" by simp
  ultimately have "rejectionLoop draws limit m (Suc k) = Some (uint (draws (Suc k + n)) mod m, Suc (Suc k + n))"
    by (rule Suc.IH)
  with rej show ?case by (subst rejectionLoop.simps) simp
qed

lemma rejectionLoop_Some:
  assumes "rejectionLoop draws limit m k = Some y"
  shows "\<exists>n. y = (uint (draws (k + n)) mod m, Suc (k + n)) \<and> uint (draws (k + n)) < limit
       \<and> (\<forall>i<n. \<not> uint (draws (k + i)) < limit)"
proof -
  let ?P = "\<lambda>draws limit m k y. \<exists>n. y = (uint (draws (k + n)) mod m, Suc (k + n))
       \<and> uint (draws (k + n)) < limit \<and> (\<forall>i<n. \<not> uint (draws (k + i)) < limit)"
  have "?P draws limit m k y"
  proof (rule rejectionLoop.raw_induct[where P = ?P, OF _ assms])
    fix f :: "(nat \<Rightarrow> 32 word) \<Rightarrow> int \<Rightarrow> int \<Rightarrow> nat \<Rightarrow> (int \<times> nat) option"
    fix draws limit m k y
    assume IH: "\<And>draws limit m k y. f draws limit m k = Some y \<Longrightarrow> ?P draws limit m k y"
    assume body: "(let value = uint (draws k) in
        if value < limit then Some (value mod m, Suc k) else f draws limit m (Suc k)) = Some y"
    show "?P draws limit m k y"
    proof (cases "uint (draws k) < limit")
      case True
      with body have "y = (uint (draws (k + 0)) mod m, Suc (k + 0))" by (simp add: Let_def)
      with True show ?thesis by (intro exI[of _ 0]) simp
    next
      case False
      with body have "f draws limit m (Suc k) = Some y" by (simp add: Let_def)
      from IH[OF this] obtain n where n: "y = (uint (draws (Suc k + n)) mod m, Suc (Suc k + n))"
        "uint (draws (Suc k + n)) < limit" "\<forall>i<n. \<not> uint (draws (Suc k + i)) < limit" by blast
      have "\<forall>i<Suc n. \<not> uint (draws (k + i)) < limit"
      proof (intro allI impI)
        fix i assume "i < Suc n"
        show "\<not> uint (draws (k + i)) < limit"
        proof (cases i)
          case 0 with False show ?thesis by simp
        next
          case (Suc i')
          with \<open>i < Suc n\<close> n(3) show ?thesis by simp
        qed
      qed
      with n(1,2) show ?thesis by (intro exI[of _ "Suc n"]) simp
    qed
  qed
  then show ?thesis .
qed

lemma rejectionLoop_None:
  "(\<forall>n. \<not> uint (draws (k + n)) < limit) \<Longrightarrow> rejectionLoop draws limit m k = None"
proof (rule ccontr)
  assume a: "\<forall>n. \<not> uint (draws (k + n)) < limit" and "rejectionLoop draws limit m k \<noteq> None"
  then obtain y where "rejectionLoop draws limit m k = Some y" by auto
  from rejectionLoop_Some[OF this] a show False by blast
qed

lemma secureRandomInt_throws:
  "secureRandomInt e m k = Some (Inl err) \<longleftrightarrow> m \<le> 0 \<and> err = Error ''maxExclusive must be a positive integer''"
  by (auto simp: secureRandomInt_def Let_def)

subsection \<open>The product in double arithmetic\<close>

lemma bitLength_pos: "0 < n \<Longrightarrow> 0 < bitLength n"
  by (subst bitLength.simps) simp

lemma bitLength_lower: "0 < n \<Longrightarrow> 2 ^ (bitLength n - 1) \<le> n"
proof (induction n rule: bitLength.induct)
  case (1 n)
  from 1(2) have nn: "\<not> n \<le> 0" by simp
  show ?case
  proof (cases "0 < n div 2")
    case False
    then have "bitLength (n div 2) = 0" by (subst bitLength.simps) simp
    with 1(2) show ?thesis by (subst bitLength.simps) simp
  next
    case True
    from 1(1)[OF nn True] have ih: "2 ^ (bitLength (n div 2) - 1) \<le> n div 2" .
    from bitLength_pos[OF True]
    have "(2::int) ^ bitLength (n div 2) = 2 * 2 ^ (bitLength (n div 2) - 1)"
      by (cases "bitLength (n div 2)") simp_all
    with ih have "2 ^ bitLength (n div 2) \<le> 2 * (n div 2)" by simp
    also have "\<dots> \<le> n" by simp
    finally show ?thesis using nn by (subst bitLength.simps) simp
  qed
qed

lemma roundHalfEven_upper:
  assumes "0 < s"
  shows "roundHalfEven n s * 2 ^ s \<le> n + 2 ^ (s - 1)"
proof -
  let ?f = "n div 2 ^ s" and ?r = "n mod 2 ^ s"
  have n: "n = ?f * 2 ^ s + ?r" by (simp add: div_mult_mod_eq)
  from assms have p: "(2::int) ^ s = 2 * 2 ^ (s - 1)" by (cases s) simp_all
  have r0: "0 \<le> ?r" by simp
  have low': "?f * 2 ^ s \<le> n + 2 ^ (s - 1)"
  proof -
    from n r0 have "?f * 2 ^ s \<le> n" by linarith
    moreover have "(0::int) \<le> 2 ^ (s - 1)" by simp
    ultimately show ?thesis by linarith
  qed
  have up': "(?f + 1) * 2 ^ s \<le> n + 2 ^ (s - 1)" if "\<not> 2 * ?r < 2 ^ s"
  proof -
    from that p have "2 ^ (s - 1) \<le> ?r" by linarith
    moreover have "(?f + 1) * 2 ^ s = ?f * 2 ^ s + 2 * 2 ^ (s - 1)" using p by (simp add: algebra_simps)
    ultimately show ?thesis using n by linarith
  qed
  show ?thesis
  proof (cases "2 * ?r < 2 ^ s")
    case True
    with low' show ?thesis by (simp add: roundHalfEven_def Let_def)
  next
    case False
    from up'[OF False] low' False show ?thesis
      by (simp add: roundHalfEven_def Let_def)
  qed
qed

lemma roundHalfEven_nonneg: "0 \<le> n \<Longrightarrow> 0 \<le> roundHalfEven n s"
  by (simp add: roundHalfEven_def Let_def pos_imp_zdiv_nonneg_iff)

lemma mulFloor_range:
  assumes "0 < m"
  shows "0 \<le> mulFloor x m \<and> mulFloor x m < m"
proof -
  define q where "q = 53 + min (shift x) 1021"
  define M where "M = uint (mantissa x)"
  define n where "n = M * m"
  define b where "b = bitLength n"
  have M0: "0 \<le> M" unfolding M_def by simp
  have M: "M < 2 ^ 53" unfolding M_def using uint_bounded[of "mantissa x"] by simp
  have "(2::int) ^ 53 \<le> 2 ^ q" unfolding q_def by (rule power_increasing) simp_all
  with M have Mq: "M + 1 \<le> 2 ^ q" by simp
  have n0: "0 \<le> n" unfolding n_def using M0 assms by simp
  have nq: "n + m \<le> 2 ^ q * m"
  proof -
    have "n + m = (M + 1) * m" unfolding n_def by (simp add: algebra_simps)
    also have "\<dots> \<le> 2 ^ q * m" using Mq assms by (intro mult_right_mono) simp_all
    finally show ?thesis .
  qed
  have res: "0 \<le> r div 2 ^ q \<and> r div 2 ^ q < m" if "0 \<le> r" "r < 2 ^ q * m" for r :: int
  proof -
    from that(1) have "0 \<le> r div 2 ^ q" by (simp add: pos_imp_zdiv_nonneg_iff)
    moreover have "r div 2 ^ q < m"
    proof (rule ccontr)
      assume "\<not> r div 2 ^ q < m"
      then have "m * 2 ^ q \<le> (r div 2 ^ q) * 2 ^ q" by (intro mult_right_mono) simp_all
      also have "\<dots> = r - r mod 2 ^ q" by (simp add: minus_mod_eq_div_mult)
      also have "\<dots> \<le> r" by simp
      finally show False using that(2) by (simp add: mult.commute)
    qed
    ultimately show ?thesis by simp
  qed
  have unf: "mulFloor x m = (if b \<le> 53 then n div 2 ^ q
         else (roundHalfEven n (b - 53) * 2 ^ (b - 53)) div 2 ^ q)"
    unfolding mulFloor_def Let_def q_def M_def n_def b_def ..
  show ?thesis
  proof (cases "b \<le> 53")
    case True
    from nq assms have "n < 2 ^ q * m" by linarith
    from res[OF n0 this] True show ?thesis unfolding unf by simp
  next
    case False
    define s where "s = b - 53"
    from False have s: "0 < s" and bs: "b = 53 + s" unfolding s_def by simp_all
    from False have "0 < n" unfolding b_def by (cases "n \<le> 0") (simp_all add: bitLength.simps)
    from bitLength_lower[OF this] have "2 ^ (52 + s) \<le> n" unfolding b_def[symmetric] bs by simp
    also have "n < 2 ^ 53 * m" unfolding n_def using M assms by simp
    finally have "(2::int) ^ (52 + s) < 2 ^ 53 * m" .
    moreover have "(2::int) ^ (52 + s) = 2 ^ 53 * 2 ^ (s - 1)"
    proof -
      from s have "52 + s = 53 + (s - 1)" by simp
      then show ?thesis by (simp only: power_add)
    qed
    ultimately have half: "2 ^ (s - 1) < m" by simp
    from roundHalfEven_upper[OF s, of n] half nq
    have lt: "roundHalfEven n s * 2 ^ s < 2 ^ q * m" by linarith
    from roundHalfEven_nonneg[OF n0, of s] have "0 \<le> roundHalfEven n s * 2 ^ s" by simp
    from res[OF this lt] False show ?thesis unfolding unf s_def[symmetric] by simp
  qed
qed

lemma secureRandomInt_range:
  assumes "secureRandomInt e m k = Some (Inr (r, k'))"
  shows "0 \<le> r \<and> r < m \<and> k < k'"
proof -
  from assms have m: "0 < m" by (auto simp: secureRandomInt_def split: if_splits)
  show ?thesis
  proof (cases "hasCrypto e")
    case False
    with assms m have r: "r = mulFloor (mathRandom e k) m" and k': "k' = Suc k"
      by (auto simp: secureRandomInt_def)
    from mulFloor_range[OF m, of "mathRandom e k"] r k' show ?thesis by simp
  next
    case True
    with assms m obtain y where y: "rejectionLoop (getRandomValues e) (uint32Max - uint32Max mod m) m k = Some y"
      and ry: "y = (r, k')"
      by (auto simp: secureRandomInt_def Let_def)
    from rejectionLoop_Some[OF y] ry m show ?thesis by auto
  qed
qed

text \<open>
  Claim C1, as the code has it. With a secure generator present and
  \<open>maxExclusive > 0\<close>, \<^verbatim>\<open>secureRandomInt\<close> samples by rejection against the bound
  \<open>limit = uint32Max - (uint32Max mod maxExclusive)\<close>, where \<open>uint32Max = 2^32 - 1\<close>:
  when the draw number \<open>n\<close> from the current position is the first one below that
  bound, the call returns that value modulo \<open>maxExclusive\<close>, every earlier draw is
  discarded, exactly \<open>n + 1\<close> draws are consumed, and the result lies in
  \<open>[0, maxExclusive)\<close>.
\<close>

theorem secureRandomInt_rejection:
  assumes "hasCrypto e" and "0 < maxExclusive"
    and "\<forall>i<n. \<not> uint (getRandomValues e (k + i)) < uint32Max - uint32Max mod maxExclusive"
    and "uint (getRandomValues e (k + n)) < uint32Max - uint32Max mod maxExclusive"
  shows "secureRandomInt e maxExclusive k =
           Some (Inr (uint (getRandomValues e (k + n)) mod maxExclusive, Suc (k + n)))
         \<and> 0 \<le> uint (getRandomValues e (k + n)) mod maxExclusive
         \<and> uint (getRandomValues e (k + n)) mod maxExclusive < maxExclusive"
  using assms rejectionLoop_first[of n "getRandomValues e" k "uint32Max - uint32Max mod maxExclusive" maxExclusive]
  by (simp add: secureRandomInt_def Let_def)

text \<open>The bound 2 on the draws \<open>0xffffffff, 7, 7, ...\<close>: the first draw is not below
  \<open>0xfffffffe\<close> and is discarded, the second gives \<open>7 mod 2 = 1\<close>.\<close>

theorem secureRandomInt_rejection_witness:
  "secureRandomInt \<lparr>hasCrypto = True, getRandomValues = (\<lambda>k. if k = 0 then 0xffffffff else 7), mathRandom = (\<lambda>k. \<lparr>mantissa = 0, shift = 0\<rparr>)\<rparr> 2 0
     = Some (Inr (1, 2))"
  using secureRandomInt_rejection[of "\<lparr>hasCrypto = True, getRandomValues = (\<lambda>k. if k = 0 then 0xffffffff else 7), mathRandom = (\<lambda>k. \<lparr>mantissa = 0, shift = 0\<rparr>)\<rparr>" 2 1 0]
  by (simp add: uint32Max_def)

text \<open>
  Claim C1 as stated fails: the code's bound is not the specification's. For the bound
  2 the specification's limit is \<open>2^32\<close>, so the first draw \<open>0xffffffff\<close> is below it
  and the specification's source returns \<open>0xffffffff mod 2 = 1\<close> from one draw; the code
  discards that draw and returns 0 from the second.
\<close>

theorem secureRandomInt_spec_limit_counterexample:
  "spec_uniformInt \<lparr>hasCrypto = True, getRandomValues = (\<lambda>k. if k = 0 then 0xffffffff else 0), mathRandom = (\<lambda>k. \<lparr>mantissa = 0, shift = 0\<rparr>)\<rparr> 2 0
       = Some (Inr (1, 1))
   \<and> secureRandomInt \<lparr>hasCrypto = True, getRandomValues = (\<lambda>k. if k = 0 then 0xffffffff else 0), mathRandom = (\<lambda>k. \<lparr>mantissa = 0, shift = 0\<rparr>)\<rparr> 2 0
       = Some (Inr (0, 2))"
  by (simp add: spec_uniformInt_def spec_limit_def secureRandomInt_def uint32Max_def Let_def rejectionLoop.simps)

section \<open>The pool builder\<close>

lemma buildPools_classes:
  "buildPools opts = map pool_of (filter (enabled opts) [Upper, Lower, Digit, Symbol])"
  by (simp add: buildPools_def Let_def)

lemma pool_of_nonempty: "pool_of c \<noteq> []"
  by (cases c) (simp_all add: CHARSETS_upper_def CHARSETS_lower_def CHARSETS_numbers_def CHARSETS_symbols_def)

lemma pool_of_length: "length (pool_of c) \<le> 28"
  by (cases c) (simp_all add: CHARSETS_upper_def CHARSETS_lower_def CHARSETS_numbers_def CHARSETS_symbols_def)

lemma buildPools_nonempty: "pool \<in> set (buildPools opts) \<Longrightarrow> pool \<noteq> []"
  by (auto simp: buildPools_classes pool_of_nonempty)

lemma buildPools_length_le: "length (buildPools opts) \<le> 4"
  by (simp add: buildPools_classes)

lemma concat_buildPools_nonempty: "buildPools opts \<noteq> [] \<Longrightarrow> concat (buildPools opts) \<noteq> []"
  using buildPools_nonempty[of _ opts] by (cases "buildPools opts") auto

lemma concat_buildPools_length: "length (concat (buildPools opts)) \<le> 90"
  by (simp add: buildPools_classes CHARSETS_upper_def CHARSETS_lower_def CHARSETS_numbers_def CHARSETS_symbols_def)

lemma pool_of_disjoint: "c \<noteq> c' \<Longrightarrow> set (pool_of c) \<inter> set (pool_of c') = {}"
  by (cases c; cases c') (simp_all add: CHARSETS_upper_def CHARSETS_lower_def CHARSETS_numbers_def CHARSETS_symbols_def)


lemma charClass_UNIV: "set [Upper, Lower, Digit, Symbol] = UNIV"
proof -
  have "c \<in> set [Upper, Lower, Digit, Symbol]" for c by (cases c) simp_all
  then show ?thesis by blast
qed

lemma buildPools_set: "set (buildPools opts) = pool_of ` {c. enabled opts c}"
  unfolding buildPools_classes set_map set_filter charClass_UNIV by simp

lemma card_enabled: "length (buildPools opts) = card {c. enabled opts c}"
proof -
  have "distinct [Upper, Lower, Digit, Symbol]" by simp
  then have "length (filter (enabled opts) [Upper, Lower, Digit, Symbol])
             = card {c \<in> set [Upper, Lower, Digit, Symbol]. enabled opts c}"
    by (simp only: distinct_length_filter Int_def mem_Collect_eq conj_commute)
  then show ?thesis unfolding buildPools_classes charClass_UNIV by simp
qed

text \<open>
  Claim C7. \<^verbatim>\<open>buildPools\<close> is a total function of the options alone: it returns the pools
  of the enabled classes in the canonical order Upper, Lower, Digit, Symbol, one pool per
  enabled class, each pool the fixed non-empty character sequence of its class, and the
  empty sequence when no class is enabled.
\<close>

theorem buildPools_canonical:
  "buildPools opts = map pool_of (filter (enabled opts) [Upper, Lower, Digit, Symbol])
   \<and> length (buildPools opts) = card {c. enabled opts c}
   \<and> (\<forall>pool \<in> set (buildPools opts). pool \<noteq> [])
   \<and> buildPools \<lparr>upper = False, lower = False, numbers = False, symbols = False\<rparr> = []"
  using buildPools_classes[of opts] card_enabled[of opts] buildPools_nonempty[of _ opts]
  by (simp add: buildPools_def)

text \<open>Upper, Digit and Symbol enabled: three pools, in that order.\<close>

theorem buildPools_canonical_witness:
  "buildPools \<lparr>upper = True, lower = False, numbers = True, symbols = True\<rparr>
     = [''ABCDEFGHIJKLMNOPQRSTUVWXYZ'', ''0123456789'', ''!@#$%^&*()-_=+[]{};:,.<>?/|~'']
   \<and> card {c. enabled \<lparr>upper = True, lower = False, numbers = True, symbols = True\<rparr> c} = 3
   \<and> ''0123456789'' \<noteq> []"
proof -
  note th = buildPools_canonical[of "\<lparr>upper = True, lower = False, numbers = True, symbols = True\<rparr>"]
  from conjunct1[OF th]
  have a: "buildPools \<lparr>upper = True, lower = False, numbers = True, symbols = True\<rparr>
     = [''ABCDEFGHIJKLMNOPQRSTUVWXYZ'', ''0123456789'', ''!@#$%^&*()-_=+[]{};:,.<>?/|~'']"
    by (simp add: CHARSETS_upper_def CHARSETS_numbers_def CHARSETS_symbols_def)
  from conjunct1[OF conjunct2[OF th]] have b:
    "card {c. enabled \<lparr>upper = True, lower = False, numbers = True, symbols = True\<rparr> c} = 3"
    unfolding a by simp
  have "''0123456789''
      \<in> set (buildPools \<lparr>upper = True, lower = False, numbers = True, symbols = True\<rparr>)"
    unfolding a by simp
  with conjunct1[OF conjunct2[OF conjunct2[OF th]]] have c: "''0123456789'' \<noteq> []" by blast
  from a b c show ?thesis by blast
qed

section \<open>Calls of the random source and the draws that serve them\<close>

lemma uint32Max_limit_ge_bound:
  assumes "0 < m" "m < 2 ^ 32"
  shows "m \<le> uint32Max - uint32Max mod m"
proof -
  have "uint32Max mod m = (uint32Max - m) mod m" by (simp add: mod_diff_right_eq[symmetric])
  also have "\<dots> \<le> uint32Max - m" using assms by (intro zmod_le_nonneg_dividend) (simp add: uint32Max_def)
  finally show ?thesis by simp
qed

lemma served_Nil: "served e [] k"
  by (simp add: served_def)

lemma served_fallback: "\<not> hasCrypto e \<Longrightarrow> served e ms k"
  by (simp add: served_def)

text \<open>A call returns and leaves the rest served exactly when the call and the rest are
  served.\<close>

lemma secureRandomInt_served:
  assumes "0 < m"
  shows "(\<exists>j k'. secureRandomInt e m k = Some (Inr (j, k')) \<and> served e rest k')
         \<longleftrightarrow> served e (m # rest) k"
proof (cases "hasCrypto e")
  case False
  with assms have "secureRandomInt e m k = Some (Inr (mulFloor (mathRandom e k) m, Suc k))"
    by (simp add: secureRandomInt_def)
  with False show ?thesis by (simp add: served_def)
next
  case True
  let ?L = "uint32Max - uint32Max mod m"
  let ?d = "getRandomValues e"
  have sec: "secureRandomInt e m k = map_option Inr (rejectionLoop ?d ?L m k)"
    using True assms by (simp add: secureRandomInt_def Let_def)
  show ?thesis
  proof
    assume "\<exists>j k'. secureRandomInt e m k = Some (Inr (j, k')) \<and> served e rest k'"
    then obtain j k' where s: "secureRandomInt e m k = Some (Inr (j, k'))" and r: "served e rest k'"
      by blast
    from s have "rejectionLoop ?d ?L m k = Some (j, k')" unfolding sec by auto
    from rejectionLoop_Some[OF this] obtain n where
      n: "k' = Suc (k + n)" "uint (?d (k + n)) < ?L" "\<forall>i<n. \<not> uint (?d (k + i)) < ?L" by auto
    with r True show "served e (m # rest) k" by (auto simp: served_def)
  next
    assume "served e (m # rest) k"
    with True obtain n where
      n: "\<forall>i<n. \<not> uint (?d (k + i)) < ?L" "uint (?d (k + n)) < ?L"
         "drawsServe ?d rest (Suc (k + n))" by (auto simp: served_def)
    from rejectionLoop_first[OF n(1,2), of m]
    have "secureRandomInt e m k = Some (Inr (uint (?d (k + n)) mod m, Suc (k + n)))"
      unfolding sec by simp
    moreover from n(3) have "served e rest (Suc (k + n))" by (simp add: served_def)
    ultimately show "\<exists>j k'. secureRandomInt e m k = Some (Inr (j, k')) \<and> served e rest k'"
      by blast
  qed
qed

lemma pickOne_no_throw: "str \<noteq> [] \<Longrightarrow> pickOne e str k \<noteq> Some (Inl err)"
  by (auto simp: pickOne_def secureRandomInt_throws split: option.splits sum.splits)

lemma pickOne_isCharOf:
  assumes "pickOne e str k = Some (Inr (c, k'))"
  shows "isCharOf str c \<and> k < k'"
proof -
  from assms obtain i where i: "secureRandomInt e (int (length str)) k = Some (Inr (i, k'))"
    and c: "c = charAt str i"
    by (auto simp: pickOne_def split: option.splits sum.splits)
  from secureRandomInt_range[OF i] have r: "0 \<le> i" "i < int (length str)" "k < k'" by simp_all
  then have "nat i < length str" by simp
  then have "str ! nat i \<in> set str" by simp
  with r c show ?thesis by (auto simp: isCharOf_def charAt_def)
qed

lemma pickOne_served:
  assumes "str \<noteq> []"
  shows "(\<exists>c k'. pickOne e str k = Some (Inr (c, k')) \<and> served e rest k')
         \<longleftrightarrow> served e (int (length str) # rest) k"
proof -
  from assms have m: "0 < int (length str)" by simp
  have "(\<exists>c k'. pickOne e str k = Some (Inr (c, k')) \<and> served e rest k')
        \<longleftrightarrow> (\<exists>j k'. secureRandomInt e (int (length str)) k = Some (Inr (j, k')) \<and> served e rest k')"
    by (auto simp: pickOne_def split: option.splits sum.splits)
  with secureRandomInt_served[OF m, of e k rest] show ?thesis by simp
qed

subsection \<open>The fallback generator\<close>

text \<open>
  Claim C9, as the code has it. When no secure generator is available,
  \<^verbatim>\<open>secureRandomInt\<close> returns \<^verbatim>\<open>Math.floor(Math.random() * maxExclusive)\<close>, computed in
  double arithmetic, as its ordinary result: an integer in \<open>[0, maxExclusive)\<close> from one
  value of \<^verbatim>\<open>Math.random\<close>. For every bound below \<open>2^32\<close> that result is no distinct
  return: a platform that has the secure generator returns the same integer after the
  same number of draws.
\<close>

theorem secureRandomInt_fallback_silent:
  assumes "\<not> hasCrypto e" and "0 < m" and "m < 2 ^ 32"
  shows "secureRandomInt e m k = Some (Inr (mulFloor (mathRandom e k) m, Suc k))
         \<and> 0 \<le> mulFloor (mathRandom e k) m \<and> mulFloor (mathRandom e k) m < m
         \<and> (\<exists>e'. hasCrypto e' \<and> secureRandomInt e' m k = secureRandomInt e m k)"
proof -
  define v where "v = mulFloor (mathRandom e k) m"
  from assms(1,2) have f: "secureRandomInt e m k = Some (Inr (v, Suc k))"
    by (simp add: secureRandomInt_def v_def)
  from mulFloor_range[OF assms(2), of "mathRandom e k"] have v: "0 \<le> v" "v < m"
    by (simp_all add: v_def)
  define e' where "e' = \<lparr>hasCrypto = True, getRandomValues = (\<lambda>i. word_of_int v), mathRandom = mathRandom e\<rparr>"
  from v assms(3) have "v mod 2 ^ 32 = v" by simp
  then have u: "uint (word_of_int v :: 32 word) = v"
    by (simp add: uint_word_of_int take_bit_eq_mod)
  from v uint32Max_limit_ge_bound[OF assms(2,3)]
  have acc: "uint (getRandomValues e' (k + 0)) < uint32Max - uint32Max mod m"
    by (simp add: e'_def u)
  have "rejectionLoop (getRandomValues e') (uint32Max - uint32Max mod m) m k
        = Some (uint (getRandomValues e' (k + 0)) mod m, Suc (k + 0))"
    using acc by (intro rejectionLoop_first[where n = 0]) simp_all
  with v have "secureRandomInt e' m k = Some (Inr (v, Suc k))"
    using assms(2) by (simp add: secureRandomInt_def Let_def u e'_def)
  with f have "hasCrypto e' \<and> secureRandomInt e' m k = secureRandomInt e m k"
    by (simp add: e'_def)
  then have "\<exists>e'. hasCrypto e' \<and> secureRandomInt e' m k = secureRandomInt e m k" by (rule exI)
  with f v show ?thesis by (simp add: v_def)
qed

text \<open>Without the secure generator and with \<^verbatim>\<open>Math.random()\<close> giving
  \<open>2573485501354569 / 2^52\<close>, the bound 7: the exact product is \<open>4 - 2^-52\<close>, which
  the multiplication rounds to 4.\<close>

theorem secureRandomInt_fallback_silent_witness:
  "\<not> hasCrypto \<lparr>hasCrypto = False, getRandomValues = (\<lambda>k. 0),
                  mathRandom = (\<lambda>k. \<lparr>mantissa = 5146971002709138, shift = 0\<rparr>)\<rparr>
   \<and> secureRandomInt \<lparr>hasCrypto = False, getRandomValues = (\<lambda>k. 0),
                       mathRandom = (\<lambda>k. \<lparr>mantissa = 5146971002709138, shift = 0\<rparr>)\<rparr> 7 0
       = Some (Inr (4, 1))
   \<and> (\<exists>e'. hasCrypto e' \<and> secureRandomInt e' 7 0 = Some (Inr (4, 1)))"
proof -
  let ?e = "\<lparr>hasCrypto = False, getRandomValues = (\<lambda>k. 0),
             mathRandom = (\<lambda>k. \<lparr>mantissa = 5146971002709138, shift = 0\<rparr>)\<rparr>"
  have h1: "\<not> hasCrypto ?e" by simp
  have h2: "(0::int) < 7" by simp
  have h3: "(7::int) < 2 ^ 32" by simp
  have v: "mulFloor (mathRandom ?e 0) 7 = 4" by code_simp
  note th = secureRandomInt_fallback_silent[OF h1 h2 h3, of 0]
  from conjunct1[OF th] have a: "secureRandomInt ?e 7 0 = Some (Inr (4, 1))"
    unfolding v by simp
  from conjunct2[OF conjunct2[OF conjunct2[OF th]]]
  have b: "\<exists>e'. hasCrypto e' \<and> secureRandomInt e' 7 0 = Some (Inr (4, 1))"
    unfolding a .
  from h1 a b show ?thesis by blast
qed

text \<open>
  Claim C9 as stated fails: the fallback is not distinguishable by what is returned. A
  platform without the secure generator (\<^verbatim>\<open>Math.random()\<close> giving 0.5) and a platform
  with it (every draw 5) return the same integer from \<^verbatim>\<open>secureRandomInt(10)\<close> and the
  same object from \<^verbatim>\<open>generatePassword\<close> for length 4 and digits only.
\<close>

theorem secureRandomInt_fallback_counterexample:
  "\<not> hasCrypto \<lparr>hasCrypto = False, getRandomValues = (\<lambda>k. 0),
                  mathRandom = (\<lambda>k. \<lparr>mantissa = 4503599627370496, shift = 0\<rparr>)\<rparr>
   \<and> hasCrypto \<lparr>hasCrypto = True, getRandomValues = (\<lambda>k. 5),
                  mathRandom = (\<lambda>k. \<lparr>mantissa = 0, shift = 0\<rparr>)\<rparr>
   \<and> secureRandomInt \<lparr>hasCrypto = False, getRandomValues = (\<lambda>k. 0),
                       mathRandom = (\<lambda>k. \<lparr>mantissa = 4503599627370496, shift = 0\<rparr>)\<rparr> 10 0
       = secureRandomInt \<lparr>hasCrypto = True, getRandomValues = (\<lambda>k. 5),
                           mathRandom = (\<lambda>k. \<lparr>mantissa = 0, shift = 0\<rparr>)\<rparr> 10 0
   \<and> generatePassword \<lparr>hasCrypto = False, getRandomValues = (\<lambda>k. 0),
                        mathRandom = (\<lambda>k. \<lparr>mantissa = 4503599627370496, shift = 0\<rparr>)\<rparr>
         4 \<lparr>upper = False, lower = False, numbers = True, symbols = False\<rparr> 0
       = generatePassword \<lparr>hasCrypto = True, getRandomValues = (\<lambda>k. 5),
                            mathRandom = (\<lambda>k. \<lparr>mantissa = 0, shift = 0\<rparr>)\<rparr>
         4 \<lparr>upper = False, lower = False, numbers = True, symbols = False\<rparr> 0"
  by code_simp

subsection \<open>The guaranteed picks\<close>

lemma mapPickOne_no_throw:
  "\<forall>pool \<in> set pools. pool \<noteq> [] \<Longrightarrow> mapPickOne e pools k \<noteq> Some (Inl err)"
proof (induction pools arbitrary: k)
  case Nil
  then show ?case by simp
next
  case (Cons pool pools)
  then have "pickOne e pool k \<noteq> Some (Inl err)" by (simp add: pickOne_no_throw)
  moreover from Cons have "\<And>k'. mapPickOne e pools k' \<noteq> Some (Inl err)" by simp
  ultimately show ?case by (auto split: option.splits sum.splits)
qed

lemma mapPickOne_picks:
  "mapPickOne e pools k = Some (Inr (chars, k')) \<Longrightarrow>
   list_all2 isCharOf pools chars \<and> k \<le> k'"
proof (induction pools arbitrary: k chars)
  case Nil
  then show ?case by simp
next
  case (Cons pool pools)
  from Cons.prems obtain c k1 cs where
    p: "pickOne e pool k = Some (Inr (c, k1))" and
    m: "mapPickOne e pools k1 = Some (Inr (cs, k'))" and
    chars: "chars = c # cs"
    by (auto split: option.splits sum.splits)
  from pickOne_isCharOf[OF p] Cons.IH[OF m] chars
  show ?case by simp
qed

lemma mapPickOne_served:
  "\<forall>pool \<in> set pools. pool \<noteq> [] \<Longrightarrow>
   (\<exists>chars k'. mapPickOne e pools k = Some (Inr (chars, k')) \<and> served e rest k')
   \<longleftrightarrow> served e (map (\<lambda>pool. int (length pool)) pools @ rest) k"
proof (induction pools arbitrary: k)
  case Nil
  then show ?case by simp
next
  case (Cons pool pools)
  then have ne: "pool \<noteq> []" and IH: "\<And>k1.
      (\<exists>chars k'. mapPickOne e pools k1 = Some (Inr (chars, k')) \<and> served e rest k')
      \<longleftrightarrow> served e (map (\<lambda>pool. int (length pool)) pools @ rest) k1"
    by simp_all
  have "(\<exists>chars k'. mapPickOne e (pool # pools) k = Some (Inr (chars, k')) \<and> served e rest k')
        \<longleftrightarrow> (\<exists>c k1. pickOne e pool k = Some (Inr (c, k1))
                    \<and> (\<exists>chars k'. mapPickOne e pools k1 = Some (Inr (chars, k')) \<and> served e rest k'))"
    by (auto split: option.splits sum.splits)
  also have "\<dots> \<longleftrightarrow> (\<exists>c k1. pickOne e pool k = Some (Inr (c, k1))
                    \<and> served e (map (\<lambda>pool. int (length pool)) pools @ rest) k1)"
    unfolding IH ..
  also have "\<dots> \<longleftrightarrow> served e (int (length pool) # map (\<lambda>pool. int (length pool)) pools @ rest) k"
    by (rule pickOne_served[OF ne])
  finally show ?case by simp
qed

subsection \<open>The fill loop\<close>

lemma fillLoop_unfold:
  "int (length chars) < len \<Longrightarrow>
   fillLoop e pool len chars k =
     (case pickOne e pool k of
        None \<Rightarrow> None
      | Some (Inl err) \<Rightarrow> Some (Inl err)
      | Some (Inr (c, k')) \<Rightarrow>
          if maxArrayLength \<le> int (length chars) then Some (Inl RangeError)
          else fillLoop e pool len (chars @ [c]) k')"
  by (subst fillLoop.simps) simp

lemma fillLoop_done:
  "\<not> int (length chars) < len \<Longrightarrow> fillLoop e pool len chars k = Some (Inr (chars, k))"
  by (subst fillLoop.simps) simp

lemma fillLoop_throws:
  "pool \<noteq> [] \<Longrightarrow> fillLoop e pool len chars k = Some (Inl err) \<Longrightarrow>
   err = RangeError \<and> 2 ^ 32 \<le> len"
proof (induction e pool len chars k rule: fillLoop.induct)
  case (1 e pool len chars k)
  from 1(3) have lt: "int (length chars) < len"
    by (cases "int (length chars) < len") (simp_all add: fillLoop_done)
  from 1(3) consider "pickOne e pool k = Some (Inl err)"
    | c k1 where "pickOne e pool k = Some (Inr (c, k1))" "maxArrayLength \<le> int (length chars)"
        "err = RangeError"
    | c k1 where "pickOne e pool k = Some (Inr (c, k1))" "\<not> maxArrayLength \<le> int (length chars)"
        "fillLoop e pool len (chars @ [c]) k1 = Some (Inl err)"
    unfolding fillLoop_unfold[OF lt]
    by (auto split: option.splits sum.splits if_splits)
  then show ?case
  proof cases
    case 1
    with pickOne_no_throw[OF \<open>pool \<noteq> []\<close>] show ?thesis by blast
  next
    case (2 c k1)
    with lt show ?thesis by (simp add: maxArrayLength_def)
  next
    case (3 c k1)
    from "1.IH"[OF lt 3(1) refl refl 3(2) \<open>pool \<noteq> []\<close> 3(3)] show ?thesis .
  qed
qed

lemma fillLoop_shape:
  "fillLoop e pool len chars k = Some (Inr (chars', k')) \<Longrightarrow>
   (\<exists>rest. chars' = chars @ rest \<and> (\<forall>v \<in> set rest. isCharOf pool v))
   \<and> int (length chars') = max len (int (length chars)) \<and> k \<le> k'"
proof (induction e pool len chars k rule: fillLoop.induct)
  case (1 e pool len chars k)
  show ?case
  proof (cases "int (length chars) < len")
    case False
    with 1(2) show ?thesis by (simp add: fillLoop_done)
  next
    case True
    from 1(2) obtain c k1 where p: "pickOne e pool k = Some (Inr (c, k1))"
      and g: "\<not> maxArrayLength \<le> int (length chars)"
      and f: "fillLoop e pool len (chars @ [c]) k1 = Some (Inr (chars', k'))"
      unfolding fillLoop_unfold[OF True]
      by (auto split: option.splits sum.splits if_splits)
    from pickOne_isCharOf[OF p] have c: "isCharOf pool c" "k < k1" by simp_all
    from "1.IH"[OF True p refl refl g f] obtain rest where
      rest: "chars' = (chars @ [c]) @ rest" "\<forall>v \<in> set rest. isCharOf pool v"
      and len: "int (length chars') = max len (int (length (chars @ [c])))" and kk: "k1 \<le> k'"
      by blast
    from rest c(1) have "chars' = chars @ (c # rest) \<and> (\<forall>v \<in> set (c # rest). isCharOf pool v)" by simp
    then have "\<exists>rest. chars' = chars @ rest \<and> (\<forall>v \<in> set rest. isCharOf pool v)" by blast
    moreover from len True have "int (length chars') = max len (int (length chars))" by simp
    ultimately show ?thesis using c(2) kk by simp
  qed
qed

lemma fillLoop_served:
  "pool \<noteq> [] \<Longrightarrow> len < 2 ^ 32 \<Longrightarrow>
   (\<exists>chars' k'. fillLoop e pool len chars k = Some (Inr (chars', k')) \<and> served e rest k')
   \<longleftrightarrow> served e (replicate (nat len - length chars) (int (length pool)) @ rest) k"
proof (induction e pool len chars k rule: fillLoop.induct)
  case (1 e pool len chars k)
  show ?case
  proof (cases "int (length chars) < len")
    case False
    then have "nat len - length chars = 0" by simp
    with False show ?thesis by (simp add: fillLoop_done)
  next
    case True
    with 1(3) have g: "\<not> maxArrayLength \<le> int (length chars)" by (simp add: maxArrayLength_def)
    from True have cnt: "nat len - length chars = Suc (nat len - length (chars @ [c]))" for c :: jsval
      by simp
    have IH: "(\<exists>chars' k'. fillLoop e pool len (chars @ [c]) k1 = Some (Inr (chars', k')) \<and> served e rest k')
        \<longleftrightarrow> served e (replicate (nat len - Suc (length chars)) (int (length pool)) @ rest) k1"
      if "pickOne e pool k = Some (Inr (c, k1))" for c k1
      using "1.IH"[OF True that refl refl g 1(2,3)] by simp
    have "(\<exists>chars' k'. fillLoop e pool len chars k = Some (Inr (chars', k')) \<and> served e rest k')
        \<longleftrightarrow> (\<exists>c k1. pickOne e pool k = Some (Inr (c, k1))
               \<and> (\<exists>chars' k'. fillLoop e pool len (chars @ [c]) k1 = Some (Inr (chars', k'))
                     \<and> served e rest k'))"
      unfolding fillLoop_unfold[OF True] using g
      by (auto split: option.splits sum.splits)
    also have "\<dots> \<longleftrightarrow> (\<exists>c k1. pickOne e pool k = Some (Inr (c, k1))
               \<and> served e (replicate (nat len - Suc (length chars)) (int (length pool)) @ rest) k1)"
      using IH by blast
    also have "\<dots> \<longleftrightarrow> served e (int (length pool)
               # replicate (nat len - Suc (length chars)) (int (length pool)) @ rest) k"
      by (rule pickOne_served[OF 1(2)])
    also have "int (length pool) # replicate (nat len - Suc (length chars)) (int (length pool)) @ rest
               = replicate (nat len - length chars) (int (length pool)) @ rest"
      using cnt by simp
    finally show ?thesis .
  qed
qed

text \<open>A request for more than an array can hold: the fill loop ends in the
  \<^verbatim>\<open>RangeError\<close> of \<^verbatim>\<open>push\<close>, unless a pick before that never returns.\<close>

lemma fillLoop_overflow:
  "\<forall>k. \<exists>c k'. pickOne e pool k = Some (Inr (c, k')) \<Longrightarrow> 2 ^ 32 \<le> len \<Longrightarrow>
   int (length chars) \<le> maxArrayLength \<Longrightarrow>
   fillLoop e pool len chars k = Some (Inl RangeError)"
proof (induction e pool len chars k rule: fillLoop.induct)
  case (1 e pool len chars k)
  from 1(3,4) have lt: "int (length chars) < len" by (simp add: maxArrayLength_def)
  from 1(2) obtain c k1 where p: "pickOne e pool k = Some (Inr (c, k1))" by blast
  show ?case
  proof (cases "maxArrayLength \<le> int (length chars)")
    case True
    with p show ?thesis unfolding fillLoop_unfold[OF lt] by simp
  next
    case False
    then have "int (length (chars @ [c])) \<le> maxArrayLength" by simp
    from "1.IH"[OF lt p refl refl False 1(2,3) this] p False show ?thesis
      unfolding fillLoop_unfold[OF lt] by simp
  qed
qed

subsection \<open>The shuffle\<close>

lemma swapAt_in_range:
  assumes "0 \<le> j" "j \<le> int i" "i < length array"
  shows "swapAt array (int i) j = array[i := array ! nat j, nat j := array ! i]"
  using assms by (simp add: swapAt_def arrayGet_def arraySet_def Let_def)

lemma mset_swapAt:
  assumes "0 \<le> j" "j \<le> int i" "i < length array"
  shows "mset (swapAt array (int i) j) = mset array"
proof -
  from assms have "nat j < length array" by simp
  from mset_swap[OF this assms(3)] show ?thesis
    by (simp add: swapAt_in_range[OF assms])
qed

lemma shuffleLoop_no_throw: "shuffleLoop e n array k \<noteq> Some (Inl err)"
proof (induction n arbitrary: array k)
  case 0
  then show ?case by simp
next
  case (Suc n)
  have "\<And>x. secureRandomInt e (int (Suc n) + 1) k \<noteq> Some (Inl x)"
    by (simp add: secureRandomInt_throws)
  with Suc show ?case by (auto split: option.splits sum.splits)
qed

lemma shuffleLoop_mset:
  "n < length array \<Longrightarrow> shuffleLoop e n array k = Some (Inr (array', k')) \<Longrightarrow>
   mset array' = mset array \<and> k \<le> k'"
proof (induction n arbitrary: array k)
  case 0
  then show ?case by simp
next
  case (Suc n)
  from Suc.prems(2) obtain j k1 where
    j: "secureRandomInt e (int (Suc n) + 1) k = Some (Inr (j, k1))" and
    rest: "shuffleLoop e n (swapAt array (int (Suc n)) j) k1 = Some (Inr (array', k'))"
    by (auto split: option.splits sum.splits)
  from secureRandomInt_range[OF j] have r: "0 \<le> j" "j \<le> int (Suc n)" "k < k1" by simp_all
  from mset_swapAt[OF r(1,2) Suc.prems(1)] have m: "mset (swapAt array (int (Suc n)) j) = mset array" .
  then have "length (swapAt array (int (Suc n)) j) = length array" by (rule mset_eq_length)
  with Suc.prems(1) have "n < length (swapAt array (int (Suc n)) j)" by simp
  from Suc.IH[OF this rest] m r(3) show ?case by simp
qed

lemma shuffleLoop_served:
  "(\<exists>array' k'. shuffleLoop e n array k = Some (Inr (array', k')) \<and> served e rest k')
   \<longleftrightarrow> served e (map int (rev [2..<Suc (Suc n)]) @ rest) k"
proof (induction n arbitrary: array k)
  case 0
  then show ?case by simp
next
  case (Suc n)
  have b: "(0::int) < int (Suc n) + 1" by simp
  have "(\<exists>array' k'. shuffleLoop e (Suc n) array k = Some (Inr (array', k')) \<and> served e rest k')
      \<longleftrightarrow> (\<exists>j k1. secureRandomInt e (int (Suc n) + 1) k = Some (Inr (j, k1))
             \<and> (\<exists>array' k'. shuffleLoop e n (swapAt array (int (Suc n)) j) k1 = Some (Inr (array', k'))
                   \<and> served e rest k'))"
    by (auto split: option.splits sum.splits)
  also have "\<dots> \<longleftrightarrow> (\<exists>j k1. secureRandomInt e (int (Suc n) + 1) k = Some (Inr (j, k1))
             \<and> served e (map int (rev [2..<Suc (Suc n)]) @ rest) k1)"
    unfolding Suc.IH ..
  also have "\<dots> \<longleftrightarrow> served e ((int (Suc n) + 1) # map int (rev [2..<Suc (Suc n)]) @ rest) k"
    by (rule secureRandomInt_served[OF b])
  also have "(int (Suc n) + 1) # map int (rev [2..<Suc (Suc n)]) @ rest
             = map int (rev [2..<Suc (Suc (Suc n))]) @ rest"
    by simp
  finally show ?case .
qed

lemma shuffleLoop_spec:
  "shuffleLoop e n array k = spec_fisherYates e (rev [1..<Suc n]) array k"
proof (induction n arbitrary: array k)
  case 0
  then show ?case by simp
next
  case (Suc n)
  have "rev [1..<Suc (Suc n)] = Suc n # rev [1..<Suc n]" by simp
  with Suc show ?case by (simp split: option.splits sum.splits del: upt_Suc)
qed

subsection \<open>Joining the array\<close>

lemma join_length:
  "\<forall>v \<in> set array. \<exists>ch. v = Str [ch] \<Longrightarrow> length (join array) = length array"
  by (induction array) (auto simp: join_def)

lemma join_set:
  "\<forall>v \<in> set array. \<exists>ch. v = Str [ch] \<Longrightarrow> set (join array) = {ch. Str [ch] \<in> set array}"
  by (induction array) (auto simp: join_def)

section \<open>The composer\<close>

subsection \<open>The stages of a generation\<close>

lemma generatePassword_valid:
  assumes "buildPools opts \<noteq> []" "int (length (buildPools opts)) \<le> len"
  shows "generatePassword e len opts k =
    (case mapPickOne e (buildPools opts) k of
       None \<Rightarrow> None
     | Some (Inl err) \<Rightarrow> Some (Inl err)
     | Some (Inr (chars, k1)) \<Rightarrow>
         (case fillLoop e (concat (buildPools opts)) len chars k1 of
            None \<Rightarrow> None
          | Some (Inl err) \<Rightarrow> Some (Inl err)
          | Some (Inr (chars2, k2)) \<Rightarrow>
              (case shuffleInPlace e chars2 k2 of
                 None \<Rightarrow> None
               | Some (Inl err) \<Rightarrow> Some (Inl err)
               | Some (Inr (chars3, k3)) \<Rightarrow>
                   Some (Inr (\<lparr>password = join chars3, error = ''''\<rparr>, k3)))))"
proof -
  from concat_buildPools_nonempty[OF assms(1)] have c: "(concat (buildPools opts) = []) = False" by simp
  from assms have v: "(length (buildPools opts) = 0) = False" "(len < int (length (buildPools opts))) = False"
    by simp_all
  show ?thesis
    unfolding generatePassword_def Let_def v c if_False ..
qed

lemma generatePassword_success_valid:
  assumes "generatePassword e len opts k = Some (Inr (r, k'))" "error r = ''''"
  shows "buildPools opts \<noteq> [] \<and> int (length (buildPools opts)) \<le> len"
proof (rule ccontr)
  assume "\<not> (buildPools opts \<noteq> [] \<and> int (length (buildPools opts)) \<le> len)"
  then consider "buildPools opts = []" | "buildPools opts \<noteq> []" "len < int (length (buildPools opts))"
    by fastforce
  then show False
  proof cases
    case 1
    with assms show False by (auto simp: generatePassword_def)
  next
    case 2
    with assms show False by (auto simp: generatePassword_def Let_def)
  qed
qed

lemma generatePassword_stages:
  assumes "buildPools opts \<noteq> []" "int (length (buildPools opts)) \<le> len"
    and "generatePassword e len opts k = Some (Inr (r, k'))"
  shows "\<exists>picks k1 chars k2 chars'.
           mapPickOne e (buildPools opts) k = Some (Inr (picks, k1))
         \<and> fillLoop e (concat (buildPools opts)) len picks k1 = Some (Inr (chars, k2))
         \<and> shuffleInPlace e chars k2 = Some (Inr (chars', k'))
         \<and> r = \<lparr>password = join chars', error = ''''\<rparr>"
  using assms(3) unfolding generatePassword_valid[OF assms(1,2)]
  by (auto split: option.splits sum.splits)

lemma generatePassword_throws:
  assumes "generatePassword e len opts k = Some (Inl err)"
  shows "err = RangeError \<and> 2 ^ 32 \<le> len"
proof -
  have v: "buildPools opts \<noteq> []" "int (length (buildPools opts)) \<le> len"
  proof -
    have "\<not> (buildPools opts = [] \<or> len < int (length (buildPools opts)))"
    proof
      assume "buildPools opts = [] \<or> len < int (length (buildPools opts))"
      then consider "buildPools opts = []" | "buildPools opts \<noteq> []" "len < int (length (buildPools opts))"
        by fastforce
      then show False
        using assms by cases (simp_all add: generatePassword_def Let_def)
    qed
    then show "buildPools opts \<noteq> []" "int (length (buildPools opts)) \<le> len" by simp_all
  qed
  have a: "\<And>x. mapPickOne e (buildPools opts) k \<noteq> Some (Inl x)"
    by (rule mapPickOne_no_throw) (simp add: buildPools_nonempty)
  have c: "\<And>chars k2 x. shuffleInPlace e chars k2 \<noteq> Some (Inl x)"
    by (simp add: shuffleInPlace_def shuffleLoop_no_throw)
  from assms a c obtain picks k1 where
    "fillLoop e (concat (buildPools opts)) len picks k1 = Some (Inl err)"
    unfolding generatePassword_valid[OF v]
    by (auto split: option.splits sum.splits)
  from fillLoop_throws[OF concat_buildPools_nonempty[OF v(1)] this] show ?thesis .
qed

text \<open>What a successful generation is made of: one pick per pool, fillers from the
  combined pool, in some order.\<close>

lemma generatePassword_shape:
  assumes v: "buildPools opts \<noteq> []" "int (length (buildPools opts)) \<le> len"
    and g: "generatePassword e len opts k = Some (Inr (r, k'))"
  shows "\<exists>picks rest chars.
           list_all2 isCharOf (buildPools opts) picks
         \<and> (\<forall>v \<in> set rest. isCharOf (concat (buildPools opts)) v)
         \<and> mset chars = mset (picks @ rest)
         \<and> int (length chars) = len
         \<and> r = \<lparr>password = join chars, error = ''''\<rparr>"
proof -
  from generatePassword_stages[OF v g] obtain picks k1 chars k2 chars' where
    m: "mapPickOne e (buildPools opts) k = Some (Inr (picks, k1))" and
    f: "fillLoop e (concat (buildPools opts)) len picks k1 = Some (Inr (chars, k2))" and
    s: "shuffleInPlace e chars k2 = Some (Inr (chars', k'))" and
    r: "r = \<lparr>password = join chars', error = ''''\<rparr>" by blast
  from mapPickOne_picks[OF m] have picks: "list_all2 isCharOf (buildPools opts) picks" by simp
  then have lp: "length picks = length (buildPools opts)" by (simp add: list_all2_lengthD)
  from fillLoop_shape[OF f] obtain rest where
    rest: "chars = picks @ rest" "\<forall>v \<in> set rest. isCharOf (concat (buildPools opts)) v"
    and len: "int (length chars) = max len (int (length picks))" by blast
  from len lp v(2) have l: "int (length chars) = len" by simp
  from v lp l have "length chars \<noteq> 0" by auto
  then have "length chars - 1 < length chars" by simp
  from shuffleLoop_mset[OF this s[unfolded shuffleInPlace_def]]
  have ms: "mset chars' = mset chars" by simp
  then have "length chars' = length chars" by (rule mset_eq_length)
  have "list_all2 isCharOf (buildPools opts) picks
         \<and> (\<forall>v \<in> set rest. isCharOf (concat (buildPools opts)) v)
         \<and> mset chars' = mset (picks @ rest)
         \<and> int (length chars') = len
         \<and> r = \<lparr>password = join chars', error = ''''\<rparr>"
    using picks rest ms l r \<open>length chars' = length chars\<close> by simp
  then show ?thesis by blast
qed

lemma isCharOf_single: "isCharOf pool v \<Longrightarrow> \<exists>ch. v = Str [ch]"
  by (auto simp: isCharOf_def)

lemma isCharOf_concat: "pool \<in> set pools \<Longrightarrow> isCharOf pool v \<Longrightarrow> isCharOf (concat pools) v"
  by (auto simp: isCharOf_def)

lemma picks_in_combined:
  "list_all2 isCharOf pools picks \<Longrightarrow> \<forall>v \<in> set picks. isCharOf (concat pools) v"
proof (induction rule: list_all2_induct)
  case Nil
  then show ?case by simp
next
  case (Cons pool pools v picks)
  then show ?case by (auto simp: isCharOf_def)
qed

lemma picks_cover:
  "list_all2 isCharOf pools picks \<Longrightarrow> pool \<in> set pools \<Longrightarrow> \<exists>v \<in> set picks. isCharOf pool v"
proof (induction rule: list_all2_induct)
  case Nil
  then show ?case by simp
next
  case (Cons p pools v picks)
  then show ?case by auto
qed

subsection \<open>Characters of the array, whatever the platform returns\<close>

lemma join_Cons: "join (v # array) = join [v] @ join array"
  by (simp add: join_def)

lemma join_append: "join (xs @ ys) = join xs @ join ys"
  by (simp add: join_def)

lemma set_join: "set (join array) = (\<Union>v \<in> set array. set (join [v]))"
  by (induction array) (auto simp: join_def)

lemma join_Undefined: "join [Undefined] = []"
  by (simp add: join_def)

lemma charAt_sub: "set (join [charAt str i]) \<subseteq> set str"
  by (auto simp: charAt_def join_def)

lemma pickOne_sub: "pickOne e str k = Some (Inr (c, k')) \<Longrightarrow> set (join [c]) \<subseteq> set str"
  using charAt_sub by (auto simp: pickOne_def split: option.splits sum.splits)

lemma mapPickOne_sub:
  "mapPickOne e pools k = Some (Inr (chars, k')) \<Longrightarrow> set (join chars) \<subseteq> \<Union> (set ` set pools)"
proof (induction pools arbitrary: k chars)
  case Nil
  then show ?case by (simp add: join_def)
next
  case (Cons pool pools)
  from Cons.prems obtain c k1 cs where
    p: "pickOne e pool k = Some (Inr (c, k1))" and
    m: "mapPickOne e pools k1 = Some (Inr (cs, k'))" and
    chars: "chars = c # cs"
    by (auto split: option.splits sum.splits)
  from pickOne_sub[OF p] Cons.IH[OF m] show ?case
    unfolding chars join_Cons[of c cs] by auto
qed

lemma fillLoop_sub:
  "fillLoop e pool len chars k = Some (Inr (chars', k')) \<Longrightarrow>
   set (join chars') \<subseteq> set (join chars) \<union> set pool"
proof (induction e pool len chars k rule: fillLoop.induct)
  case (1 e pool len chars k)
  show ?case
  proof (cases "int (length chars) < len")
    case False
    with 1(2) show ?thesis by (auto simp: fillLoop_done)
  next
    case True
    from 1(2) obtain c k1 where p: "pickOne e pool k = Some (Inr (c, k1))"
      and g: "\<not> maxArrayLength \<le> int (length chars)"
      and f: "fillLoop e pool len (chars @ [c]) k1 = Some (Inr (chars', k'))"
      unfolding fillLoop_unfold[OF True]
      by (auto split: option.splits sum.splits if_splits)
    from "1.IH"[OF True p refl refl g f] pickOne_sub[OF p] show ?thesis
      by (auto simp: join_append)
  qed
qed

lemma arrayGet_sub: "set (join [arrayGet array i]) \<subseteq> set (join array)"
proof (cases "0 \<le> i \<and> i < int (length array)")
  case True
  then have "nat i < length array" by linarith
  then have "array ! nat i \<in> set array" by (rule nth_mem)
  with True show ?thesis by (auto simp: arrayGet_def set_join[of array])
next
  case False
  then show ?thesis by (auto simp: arrayGet_def join_def)
qed

lemma arraySet_sub: "set (join (arraySet array i v)) \<subseteq> set (join array) \<union> set (join [v])"
proof -
  have "set (arraySet array i v) \<subseteq> set array \<union> {v, Undefined}"
    using set_update_subset_insert[of array "nat i" v]
    by (auto simp: arraySet_def)
  then show ?thesis
    unfolding set_join[of "arraySet array i v"] set_join[of array]
    by (auto simp: join_Undefined)
qed

lemma swapAt_sub: "set (join (swapAt array i j)) \<subseteq> set (join array)"
proof -
  have "set (join (swapAt array i j))
        \<subseteq> set (join (arraySet array i (arrayGet array j))) \<union> set (join [arrayGet array i])"
    unfolding swapAt_def Let_def by (rule arraySet_sub)
  also have "\<dots> \<subseteq> set (join array) \<union> set (join [arrayGet array j]) \<union> set (join [arrayGet array i])"
    using arraySet_sub[of array i "arrayGet array j"] by auto
  also have "\<dots> \<subseteq> set (join array)"
    using arrayGet_sub[of array i] arrayGet_sub[of array j] by auto
  finally show ?thesis .
qed

lemma shuffleLoop_sub:
  "shuffleLoop e n array k = Some (Inr (array', k')) \<Longrightarrow> set (join array') \<subseteq> set (join array)"
proof (induction n arbitrary: array k)
  case 0
  then show ?case by simp
next
  case (Suc n)
  from Suc.prems obtain j k1 where
    rest: "shuffleLoop e n (swapAt array (int (Suc n)) j) k1 = Some (Inr (array', k'))"
    by (auto split: option.splits sum.splits)
  from Suc.IH[OF rest] swapAt_sub[of array "int (Suc n)" j] show ?case by blast
qed

lemma generatePassword_sub:
  assumes "generatePassword e len opts k = Some (Inr (r, k'))"
  shows "set (password r) \<subseteq> \<Union> (set ` set (buildPools opts))"
proof (cases "buildPools opts \<noteq> [] \<and> int (length (buildPools opts)) \<le> len")
  case False
  then consider "buildPools opts = []" | "buildPools opts \<noteq> []" "len < int (length (buildPools opts))"
    by fastforce
  then have "password r = []"
    using assms by cases (auto simp: generatePassword_def Let_def)
  then show ?thesis by simp
next
  case True
  then have v: "buildPools opts \<noteq> []" "int (length (buildPools opts)) \<le> len" by simp_all
  from generatePassword_stages[OF v assms] obtain picks k1 chars k2 chars' where
    m: "mapPickOne e (buildPools opts) k = Some (Inr (picks, k1))" and
    f: "fillLoop e (concat (buildPools opts)) len picks k1 = Some (Inr (chars, k2))" and
    s: "shuffleInPlace e chars k2 = Some (Inr (chars', k'))" and
    r: "r = \<lparr>password = join chars', error = ''''\<rparr>" by blast
  from shuffleLoop_sub[OF s[unfolded shuffleInPlace_def]] fillLoop_sub[OF f] mapPickOne_sub[OF m]
  have "set (join chars') \<subseteq> \<Union> (set ` set (buildPools opts))" by auto
  with r show ?thesis by simp
qed

subsection \<open>When a generation returns\<close>

lemma generatePassword_served:
  assumes v: "buildPools opts \<noteq> []" "int (length (buildPools opts)) \<le> len"
    and small: "len < 2 ^ 32"
  shows "(\<exists>r k'. generatePassword e len opts k = Some (Inr (r, k')))
         \<longleftrightarrow> served e (requestBounds len opts) k"
proof -
  let ?pools = "buildPools opts"
  let ?B1 = "map (\<lambda>pool. int (length pool)) ?pools"
  let ?B2 = "replicate (nat len - length ?pools) (int (length (concat ?pools)))"
  let ?B3 = "map int (rev [2..<Suc (nat len)])"
  have rb: "requestBounds len opts = ?B1 @ ?B2 @ ?B3" by (simp add: requestBounds_def Let_def)
  have ne: "\<forall>pool \<in> set ?pools. pool \<noteq> []" by (simp add: buildPools_nonempty)
  note cne = concat_buildPools_nonempty[OF v(1)]
  from v have pos: "0 < len" by (cases ?pools) auto
  show ?thesis
  proof
    assume "\<exists>r k'. generatePassword e len opts k = Some (Inr (r, k'))"
    then obtain r k' where g: "generatePassword e len opts k = Some (Inr (r, k'))" by blast
    from generatePassword_stages[OF v g] obtain picks k1 chars k2 chars' where
      m: "mapPickOne e ?pools k = Some (Inr (picks, k1))" and
      f: "fillLoop e (concat ?pools) len picks k1 = Some (Inr (chars, k2))" and
      s: "shuffleInPlace e chars k2 = Some (Inr (chars', k'))" by blast
    from mapPickOne_picks[OF m] have "list_all2 isCharOf ?pools picks" by simp
    then have lp: "length picks = length ?pools" by (simp add: list_all2_lengthD)
    from fillLoop_shape[OF f] lp v(2) have l: "int (length chars) = len" by simp
    with pos have n: "Suc (Suc (length chars - 1)) = Suc (nat len)" by simp
    from s have "\<exists>array' k'. shuffleLoop e (length chars - 1) chars k2 = Some (Inr (array', k'))
                  \<and> served e [] k'"
      by (auto simp: shuffleInPlace_def served_Nil)
    with shuffleLoop_served[of e "length chars - 1" chars k2 "[]"]
    have "served e (?B3 @ []) k2" unfolding n by blast
    then have "served e ?B3 k2" by simp
    with f have "\<exists>chars' k'. fillLoop e (concat ?pools) len picks k1 = Some (Inr (chars', k'))
                  \<and> served e ?B3 k'" by blast
    with fillLoop_served[OF cne small, of e picks k1 ?B3]
    have "served e (?B2 @ ?B3) k1" unfolding lp by blast
    with m have "\<exists>chars k'. mapPickOne e ?pools k = Some (Inr (chars, k'))
                  \<and> served e (?B2 @ ?B3) k'" by blast
    with mapPickOne_served[OF ne, of e k "?B2 @ ?B3"]
    show "served e (requestBounds len opts) k" unfolding rb by blast
  next
    assume "served e (requestBounds len opts) k"
    then have "served e (?B1 @ ?B2 @ ?B3) k" unfolding rb .
    with mapPickOne_served[OF ne, of e k "?B2 @ ?B3"] obtain picks k1 where
      m: "mapPickOne e ?pools k = Some (Inr (picks, k1))" and s1: "served e (?B2 @ ?B3) k1"
      by blast
    from mapPickOne_picks[OF m] have "list_all2 isCharOf ?pools picks" by simp
    then have lp: "length picks = length ?pools" by (simp add: list_all2_lengthD)
    from s1 have "served e (replicate (nat len - length picks) (int (length (concat ?pools))) @ ?B3) k1"
      unfolding lp .
    with fillLoop_served[OF cne small, of e picks k1 ?B3] obtain chars k2 where
      f: "fillLoop e (concat ?pools) len picks k1 = Some (Inr (chars, k2))" and s2: "served e ?B3 k2"
      by blast
    from fillLoop_shape[OF f] lp v(2) have l: "int (length chars) = len" by simp
    with pos have n: "Suc (Suc (length chars - 1)) = Suc (nat len)" by simp
    from s2 have "served e (map int (rev [2..<Suc (Suc (length chars - 1))]) @ []) k2"
      unfolding n by simp
    with shuffleLoop_served[of e "length chars - 1" chars k2 "[]"] obtain chars' k3 where
      "shuffleLoop e (length chars - 1) chars k2 = Some (Inr (chars', k3))"
      by blast
    then have s: "shuffleInPlace e chars k2 = Some (Inr (chars', k3))"
      by (simp add: shuffleInPlace_def)
    from m f s have "generatePassword e len opts k
        = Some (Inr (\<lparr>password = join chars', error = ''''\<rparr>, k3))"
      unfolding generatePassword_valid[OF v] by simp
    then show "\<exists>r k'. generatePassword e len opts k = Some (Inr (r, k'))" by blast
  qed
qed

text \<open>Serving a call draw by draw: an accepted draw serves the call, a rejected draw
  leaves it to the next position.\<close>

lemma drawsServe_accept:
  assumes "uint (draws k) < uint32Max - uint32Max mod m" and "drawsServe draws ms (Suc k)"
  shows "drawsServe draws (m # ms) k"
  unfolding drawsServe.simps using assms by (intro exI[of _ 0]) simp

lemma drawsServe_reject:
  assumes "\<not> uint (draws k) < uint32Max - uint32Max mod m"
    and "drawsServe draws (m # ms) (Suc k)"
  shows "drawsServe draws (m # ms) k"
proof -
  from assms(2) obtain n where
    n: "\<forall>i<n. \<not> uint (draws (Suc k + i)) < uint32Max - uint32Max mod m"
      "uint (draws (Suc k + n)) < uint32Max - uint32Max mod m"
      "drawsServe draws ms (Suc (Suc k + n))"
    unfolding drawsServe.simps by blast
  have "\<forall>i<Suc n. \<not> uint (draws (k + i)) < uint32Max - uint32Max mod m"
  proof (intro allI impI)
    fix i assume "i < Suc n"
    then show "\<not> uint (draws (k + i)) < uint32Max - uint32Max mod m"
      using assms(1) n(1) by (cases i) simp_all
  qed
  with n(2,3) show ?thesis
    unfolding drawsServe.simps by (intro exI[of _ "Suc n"]) simp
qed

text \<open>A stream of zeros serves every sequence of calls with bounds below \<open>2^32\<close>.\<close>

lemma drawsServe_zero:
  assumes "\<forall>k. draws k = 0"
  shows "\<forall>m \<in> set ms. 0 < m \<and> m < 2 ^ 32 \<Longrightarrow> drawsServe draws ms k"
proof (induction ms arbitrary: k)
  case Nil
  then show ?case by simp
next
  case (Cons m ms)
  then have m: "0 < m" "m < 2 ^ 32" and rest: "\<And>k'. drawsServe draws ms k'" by simp_all
  from uint32Max_limit_ge_bound[OF m] m(1) assms
  have acc: "\<And>k'. uint (draws k') < uint32Max - uint32Max mod m" by simp
  show ?case
    unfolding drawsServe.simps
    by (rule exI[of _ 0]) (simp add: acc rest)
qed

text \<open>A request for \<open>2^32\<close> characters or more, on a generator that serves every call:
  the array cannot hold them.\<close>

lemma generatePassword_overflow:
  assumes v: "buildPools opts \<noteq> []" and big: "2 ^ 32 \<le> len"
    and all: "\<And>ms k. \<forall>m \<in> set ms. 0 < m \<and> m < 2 ^ 32 \<Longrightarrow> served e ms k"
  shows "generatePassword e len opts k = Some (Inl RangeError)"
proof -
  let ?pools = "buildPools opts"
  from buildPools_length_le[of opts] big have v2: "int (length ?pools) \<le> len" by simp
  have ne: "\<forall>pool \<in> set ?pools. pool \<noteq> []" by (simp add: buildPools_nonempty)
  note cne = concat_buildPools_nonempty[OF v]
  have "\<forall>m \<in> set (map (\<lambda>pool. int (length pool)) ?pools @ []). 0 < m \<and> m < 2 ^ 32"
  proof
    fix m assume "m \<in> set (map (\<lambda>pool. int (length pool)) ?pools @ [])"
    then obtain pool where p: "pool \<in> set ?pools" "m = int (length pool)" by auto
    from p(1) obtain c where "pool = pool_of c" unfolding buildPools_set by blast
    with pool_of_nonempty[of c] pool_of_length[of c] p(2) show "0 < m \<and> m < 2 ^ 32" by simp
  qed
  from all[OF this, of k] mapPickOne_served[OF ne, of e k "[]"] obtain picks k1 where
    m: "mapPickOne e ?pools k = Some (Inr (picks, k1))"
    by blast
  from mapPickOne_picks[OF m] have "list_all2 isCharOf ?pools picks" by simp
  then have "length picks = length ?pools" by (simp add: list_all2_lengthD)
  with buildPools_length_le[of opts] have lp: "int (length picks) \<le> maxArrayLength"
    by (simp add: maxArrayLength_def)
  have "\<exists>c k'. pickOne e (concat ?pools) k2 = Some (Inr (c, k'))" for k2
  proof -
    from cne concat_buildPools_length[of opts]
    have "\<forall>m \<in> set [int (length (concat ?pools))]. 0 < m \<and> m < 2 ^ 32" by simp
    from all[OF this, of k2] pickOne_served[OF cne, of e k2 "[]"] show ?thesis
      by blast
  qed
  then have "\<forall>k. \<exists>c k'. pickOne e (concat ?pools) k = Some (Inr (c, k'))" by blast
  from fillLoop_overflow[OF this big lp] m show ?thesis
    unfolding generatePassword_valid[OF v v2] by simp
qed

section \<open>The claims about generatePassword\<close>

text \<open>
  Claim C2, for the requests an array can hold and the generator serves. Take a valid
  request (at least one class selected, length at least the number of selected classes)
  of a length below \<open>2^32\<close>. Then \<^verbatim>\<open>generatePassword\<close> returns, with an empty error, a
  password of exactly \<open>length\<close> characters if, and only if, the generator serves the calls
  of the request: without the secure generator always, and with it when the stream
  has, for each call of the random source in turn, a draw below the limit of the call's
  bound.
\<close>

theorem generatePassword_length:
  assumes "buildPools opts \<noteq> []" and "int (length (buildPools opts)) \<le> len"
    and "len < 2 ^ 32"
  shows "(\<exists>r k'. generatePassword e len opts k = Some (Inr (r, k'))
                \<and> error r = '''' \<and> int (length (password r)) = len)
         \<longleftrightarrow> served e (requestBounds len opts) k"
proof
  assume "\<exists>r k'. generatePassword e len opts k = Some (Inr (r, k'))
                \<and> error r = '''' \<and> int (length (password r)) = len"
  then have "\<exists>r k'. generatePassword e len opts k = Some (Inr (r, k'))" by blast
  then show "served e (requestBounds len opts) k"
    unfolding generatePassword_served[OF assms] .
next
  assume "served e (requestBounds len opts) k"
  then obtain r k' where g: "generatePassword e len opts k = Some (Inr (r, k'))"
    unfolding generatePassword_served[OF assms, symmetric] by blast
  from generatePassword_shape[OF assms(1,2) g] obtain picks rest cs where
    sh: "list_all2 isCharOf (buildPools opts) picks"
      "\<forall>v \<in> set rest. isCharOf (concat (buildPools opts)) v"
      "mset cs = mset (picks @ rest)" "int (length cs) = len"
      "r = \<lparr>password = join cs, error = ''''\<rparr>" by blast
  from sh(3) have "set cs = set picks \<union> set rest" by (metis mset_eq_setD set_append)
  with picks_in_combined[OF sh(1)] sh(2) have "\<forall>v \<in> set cs. \<exists>ch. v = Str [ch]"
    by (auto dest: isCharOf_single)
  from join_length[OF this] sh(4,5) have "error r = '''' \<and> int (length (password r)) = len"
    by simp
  with g show "\<exists>r k'. generatePassword e len opts k = Some (Inr (r, k'))
                \<and> error r = '''' \<and> int (length (password r)) = len" by blast
qed

text \<open>Length 4 with upper case and digits. On the stream whose first draw is rejected
  and whose later draws are 5 the password is \<^verbatim>\<open>FFF5\<close>, so the stream serves the seven
  calls; the stream of zeros serves them, so a password of four characters is returned.\<close>

theorem generatePassword_length_witness:
  "buildPools \<lparr>upper = True, lower = False, numbers = True, symbols = False\<rparr> \<noteq> []
   \<and> generatePassword \<lparr>hasCrypto = True, getRandomValues = (\<lambda>k. if k = 0 then 0xffffffff else 5),
                        mathRandom = (\<lambda>k. \<lparr>mantissa = 0, shift = 0\<rparr>)\<rparr>
        4 \<lparr>upper = True, lower = False, numbers = True, symbols = False\<rparr> 0
       = Some (Inr (\<lparr>password = ''FFF5'', error = ''''\<rparr>, 8))
   \<and> served \<lparr>hasCrypto = True, getRandomValues = (\<lambda>k. if k = 0 then 0xffffffff else 5),
              mathRandom = (\<lambda>k. \<lparr>mantissa = 0, shift = 0\<rparr>)\<rparr>
        (requestBounds 4 \<lparr>upper = True, lower = False, numbers = True, symbols = False\<rparr>) 0
   \<and> (\<exists>r k'. generatePassword \<lparr>hasCrypto = True, getRandomValues = (\<lambda>k. 0),
                                mathRandom = (\<lambda>k. \<lparr>mantissa = 0, shift = 0\<rparr>)\<rparr>
                 4 \<lparr>upper = True, lower = False, numbers = True, symbols = False\<rparr> 0 = Some (Inr (r, k'))
               \<and> error r = '''' \<and> int (length (password r)) = 4)"
proof -
  let ?e = "\<lparr>hasCrypto = True, getRandomValues = (\<lambda>k. if k = 0 then 0xffffffff else 5),
             mathRandom = (\<lambda>k. \<lparr>mantissa = 0, shift = 0\<rparr>)\<rparr>"
  let ?z = "\<lparr>hasCrypto = True, getRandomValues = (\<lambda>k. 0),
             mathRandom = (\<lambda>k. \<lparr>mantissa = 0, shift = 0\<rparr>)\<rparr>"
  let ?opts = "\<lparr>upper = True, lower = False, numbers = True, symbols = False\<rparr>"
  have h1: "buildPools ?opts \<noteq> []" by (simp add: buildPools_def)
  have h2: "int (length (buildPools ?opts)) \<le> 4" by (simp add: buildPools_def)
  have h3: "(4::int) < 2 ^ 32" by simp
  have g: "generatePassword ?e 4 ?opts 0 = Some (Inr (\<lparr>password = ''FFF5'', error = ''''\<rparr>, 8))"
    by code_simp
  then have "\<exists>r k'. generatePassword ?e 4 ?opts 0 = Some (Inr (r, k'))
                \<and> error r = '''' \<and> int (length (password r)) = 4" by simp
  with generatePassword_length[OF h1 h2 h3, of ?e 0]
  have a: "served ?e (requestBounds 4 ?opts) 0" by blast
  have "requestBounds 4 ?opts = [26, 10, 36, 36, 4, 3, 2]" by code_simp
  then have "\<forall>m \<in> set (requestBounds 4 ?opts). 0 < m \<and> m < 2 ^ 32" by simp
  then have "drawsServe (getRandomValues ?z) (requestBounds 4 ?opts) 0"
    by (intro drawsServe_zero) simp_all
  then have "served ?z (requestBounds 4 ?opts) 0" by (simp add: served_def)
  with generatePassword_length[OF h1 h2 h3, of ?z 0]
  have b: "\<exists>r k'. generatePassword ?z 4 ?opts 0 = Some (Inr (r, k'))
                \<and> error r = '''' \<and> int (length (password r)) = 4" by blast
  from h1 g a b show ?thesis by blast
qed

text \<open>
  Claim C2 as stated, for every valid request, fails in two ways. For the length
  \<open>2^32\<close>, on a stream that serves every call, the array reaches its greatest length
  while the buffer is filled and \<^verbatim>\<open>push\<close> throws. And for the length 1 on a generator
  whose every draw is \<open>0xffffffff\<close> the first pick never returns. Both requests are
  valid, and neither returns a password.
\<close>

theorem generatePassword_length_counterexample:
  "generatePassword \<lparr>hasCrypto = True, getRandomValues = (\<lambda>k. 0),
                     mathRandom = (\<lambda>k. \<lparr>mantissa = 0, shift = 0\<rparr>)\<rparr>
     4294967296 \<lparr>upper = True, lower = False, numbers = False, symbols = False\<rparr> 0
     = Some (Inl RangeError)
   \<and> generatePassword \<lparr>hasCrypto = True, getRandomValues = (\<lambda>k. 0xffffffff),
                        mathRandom = (\<lambda>k. \<lparr>mantissa = 0, shift = 0\<rparr>)\<rparr>
     1 \<lparr>upper = True, lower = False, numbers = False, symbols = False\<rparr> 0 = None"
proof
  let ?z = "\<lparr>hasCrypto = True, getRandomValues = (\<lambda>k. 0),
             mathRandom = (\<lambda>k. \<lparr>mantissa = 0, shift = 0\<rparr>)\<rparr>"
  have "served ?z ms k" if "\<forall>m \<in> set ms. 0 < m \<and> m < 2 ^ 32" for ms k
    using drawsServe_zero[of "getRandomValues ?z" ms k] that by (simp add: served_def)
  then show "generatePassword ?z 4294967296
      \<lparr>upper = True, lower = False, numbers = False, symbols = False\<rparr> 0 = Some (Inl RangeError)"
    by (intro generatePassword_overflow) (simp_all add: buildPools_def)
next
  let ?e = "\<lparr>hasCrypto = True, getRandomValues = (\<lambda>k. 0xffffffff),
             mathRandom = (\<lambda>k. \<lparr>mantissa = 0, shift = 0\<rparr>)\<rparr>"
  have "rejectionLoop (getRandomValues ?e) (uint32Max - uint32Max mod 26) 26 0 = None"
    by (rule rejectionLoop_None) (simp add: uint32Max_def)
  then have "secureRandomInt ?e 26 0 = None"
    by (simp add: secureRandomInt_def Let_def)
  then show "generatePassword ?e 1 \<lparr>upper = True, lower = False, numbers = False, symbols = False\<rparr> 0 = None"
    by (simp add: generatePassword_def buildPools_def pickOne_def CHARSETS_upper_def)
qed

text \<open>
  Claim C3. Whenever \<^verbatim>\<open>generatePassword\<close> returns a result, every character of its
  password belongs to the pool of an enabled class, and no character of the pool of a
  disabled class occurs in it. (Of a failed request the password is empty.)
\<close>

theorem generatePassword_chars_enabled:
  assumes "generatePassword e len opts k = Some (Inr (r, k'))"
  shows "set (password r) \<subseteq> \<Union> (set ` set (buildPools opts))
         \<and> (\<forall>c. \<not> enabled opts c \<longrightarrow> set (pool_of c) \<inter> set (password r) = {})"
proof -
  from generatePassword_sub[OF assms] have sub: "set (password r) \<subseteq> \<Union> (set ` set (buildPools opts))" .
  have "set (pool_of c) \<inter> set (password r) = {}" if dis: "\<not> enabled opts c" for c
  proof (rule ccontr)
    assume "set (pool_of c) \<inter> set (password r) \<noteq> {}"
    then obtain ch where ch: "ch \<in> set (pool_of c)" "ch \<in> set (password r)" by blast
    from ch(2) sub obtain c' where c': "enabled opts c'" "ch \<in> set (pool_of c')"
      unfolding buildPools_set by blast
    from c'(1) dis have "c \<noteq> c'" by auto
    from pool_of_disjoint[OF this] ch(1) c'(2) show False by blast
  qed
  with sub show ?thesis by blast
qed

text \<open>Length 6 with upper case, lower case and digits on the draws \<open>3, 10, 17, ...\<close>: the
  password is \<^verbatim>\<open>fkDm7Y\<close>, with no symbol in it.\<close>

theorem generatePassword_chars_enabled_witness:
  "generatePassword \<lparr>hasCrypto = True, getRandomValues = (\<lambda>k. word_of_nat (k * 7 + 3)), mathRandom = (\<lambda>k. \<lparr>mantissa = 0, shift = 0\<rparr>)\<rparr>
      6 \<lparr>upper = True, lower = True, numbers = True, symbols = False\<rparr> 0
     = Some (Inr (\<lparr>password = ''fkDm7Y'', error = ''''\<rparr>, 11))
   \<and> set ''fkDm7Y'' \<subseteq> \<Union> (set ` set (buildPools \<lparr>upper = True, lower = True, numbers = True, symbols = False\<rparr>))
   \<and> set (pool_of Symbol) \<inter> set ''fkDm7Y'' = {}"
proof -
  let ?e = "\<lparr>hasCrypto = True, getRandomValues = (\<lambda>k. word_of_nat (k * 7 + 3)), mathRandom = (\<lambda>k. \<lparr>mantissa = 0, shift = 0\<rparr>)\<rparr>"
  let ?opts = "\<lparr>upper = True, lower = True, numbers = True, symbols = False\<rparr>"
  have g: "generatePassword ?e 6 ?opts 0 = Some (Inr (\<lparr>password = ''fkDm7Y'', error = ''''\<rparr>, 11))"
    by code_simp
  note th = generatePassword_chars_enabled[OF g]
  from conjunct1[OF th]
  have a: "set ''fkDm7Y'' \<subseteq> \<Union> (set ` set (buildPools ?opts))" by simp
  from conjunct2[OF th, THEN spec, of Symbol]
  have b: "set (pool_of Symbol) \<inter> set ''fkDm7Y'' = {}" by simp
  from g a b show ?thesis by blast
qed

text \<open>
  Claim C4, for the requests an array can hold and the generator serves. For a valid
  request of a length below \<open>2^32\<close> whose calls the generator serves,
  \<^verbatim>\<open>generatePassword\<close> returns, with an empty error, a password that contains, for each
  selected pool and so for each enabled class, at least one character of that pool: the
  guaranteed picks are still there after the fill and the shuffle.
\<close>

theorem generatePassword_covers:
  assumes "buildPools opts \<noteq> []" and "int (length (buildPools opts)) \<le> len"
    and "len < 2 ^ 32"
    and "served e (requestBounds len opts) k"
  shows "\<exists>r k'. generatePassword e len opts k = Some (Inr (r, k')) \<and> error r = ''''
           \<and> (\<forall>pool \<in> set (buildPools opts). set pool \<inter> set (password r) \<noteq> {})
           \<and> (\<forall>c. enabled opts c \<longrightarrow> set (pool_of c) \<inter> set (password r) \<noteq> {})"
proof -
  from assms(4) obtain r k' where g: "generatePassword e len opts k = Some (Inr (r, k'))"
    unfolding generatePassword_served[OF assms(1,2,3), symmetric] by blast
  from generatePassword_shape[OF assms(1,2) g] obtain picks rest chars where
    sh: "list_all2 isCharOf (buildPools opts) picks"
      "\<forall>v \<in> set rest. isCharOf (concat (buildPools opts)) v"
      "mset chars = mset (picks @ rest)"
      "r = \<lparr>password = join chars, error = ''''\<rparr>" by blast
  from sh(3) have sc: "set chars = set picks \<union> set rest" by (metis mset_eq_setD set_append)
  with picks_in_combined[OF sh(1)] sh(2) have "\<forall>v \<in> set chars. \<exists>ch. v = Str [ch]"
    by (auto dest: isCharOf_single)
  from join_set[OF this] sh(4) have pw: "set (password r) = {ch. Str [ch] \<in> set chars}" by simp
  have pools: "set pool \<inter> set (password r) \<noteq> {}" if "pool \<in> set (buildPools opts)" for pool
  proof -
    from picks_cover[OF sh(1) that] obtain v where "v \<in> set picks" "isCharOf pool v" by blast
    then obtain ch where "ch \<in> set pool" "Str [ch] \<in> set chars"
      using sc by (auto simp: isCharOf_def)
    with pw show ?thesis by blast
  qed
  have "set (pool_of c) \<inter> set (password r) \<noteq> {}" if "enabled opts c" for c
    using pools[of "pool_of c"] that unfolding buildPools_set by blast
  with pools g sh(4) show ?thesis by auto
qed

text \<open>Length 5 with all four classes, on the secure generator with the draws
  \<open>4, 15, 0xffffffff, 37, 48, ...\<close>: the calls have the bounds 26, 26, 10, 28, 90 and
  5, 4, 3, 2; the third draw is rejected and every other draw accepted, so the stream
  serves them, and the password is \<^verbatim>\<open>7,7pE\<close>.\<close>

theorem generatePassword_covers_witness:
  "served \<lparr>hasCrypto = True,
            getRandomValues = (\<lambda>k. if k = 2 then 0xffffffff else word_of_nat (k * 11 + 4)),
            mathRandom = (\<lambda>k. \<lparr>mantissa = 0, shift = 0\<rparr>)\<rparr>
      (requestBounds 5 \<lparr>upper = True, lower = True, numbers = True, symbols = True\<rparr>) 0
   \<and> generatePassword \<lparr>hasCrypto = True,
            getRandomValues = (\<lambda>k. if k = 2 then 0xffffffff else word_of_nat (k * 11 + 4)),
            mathRandom = (\<lambda>k. \<lparr>mantissa = 0, shift = 0\<rparr>)\<rparr>
      5 \<lparr>upper = True, lower = True, numbers = True, symbols = True\<rparr> 0
     = Some (Inr (\<lparr>password = ''7,7pE'', error = ''''\<rparr>, 10))
   \<and> set (pool_of Upper) \<inter> set ''7,7pE'' \<noteq> {}
   \<and> set (pool_of Lower) \<inter> set ''7,7pE'' \<noteq> {}
   \<and> set (pool_of Digit) \<inter> set ''7,7pE'' \<noteq> {}
   \<and> set (pool_of Symbol) \<inter> set ''7,7pE'' \<noteq> {}"
proof -
  let ?e = "\<lparr>hasCrypto = True,
            getRandomValues = (\<lambda>k. if k = 2 then 0xffffffff else word_of_nat (k * 11 + 4)),
            mathRandom = (\<lambda>k. \<lparr>mantissa = 0, shift = 0\<rparr>)\<rparr>"
  let ?opts = "\<lparr>upper = True, lower = True, numbers = True, symbols = True\<rparr>"
  let ?r = "\<lparr>password = ''7,7pE'', error = ''''\<rparr>"
  have h1: "buildPools ?opts \<noteq> []" by (simp add: buildPools_def)
  have h2: "int (length (buildPools ?opts)) \<le> 5" by (simp add: buildPools_def)
  have h3: "(5::int) < 2 ^ 32" by simp
  have g: "generatePassword ?e 5 ?opts 0 = Some (Inr (?r, 10))"
    by code_simp
  have rb: "requestBounds 5 ?opts = [26, 26, 10, 28, 90, 5, 4, 3, 2]" by code_simp
  have ds: "drawsServe (\<lambda>k. if k = 2 then 0xffffffff else word_of_nat (k * 11 + 4))
              [26, 26, 10, 28, 90, 5, 4, 3, 2] 0"
    apply (rule drawsServe_accept, simp add: uint32Max_def)
    apply (rule drawsServe_accept, simp add: uint32Max_def)
    apply (rule drawsServe_reject, simp add: uint32Max_def)
    apply (rule drawsServe_accept, simp add: uint32Max_def)
    apply (rule drawsServe_accept, simp add: uint32Max_def)
    apply (rule drawsServe_accept, simp add: uint32Max_def)
    apply (rule drawsServe_accept, simp add: uint32Max_def)
    apply (rule drawsServe_accept, simp add: uint32Max_def)
    apply (rule drawsServe_accept, simp add: uint32Max_def)
    apply (rule drawsServe_accept, simp add: uint32Max_def)
    apply simp
    done
  have h4: "served ?e (requestBounds 5 ?opts) 0"
    unfolding served_def rb using ds by (simp del: drawsServe.simps)
  from generatePassword_covers[OF h1 h2 h3 h4] obtain r k' where
    r: "generatePassword ?e 5 ?opts 0 = Some (Inr (r, k'))"
    and c: "\<forall>c. enabled ?opts c \<longrightarrow> set (pool_of c) \<inter> set (password r) \<noteq> {}" by blast
  from r g have "r = ?r" by simp
  with c have c': "\<And>c. enabled ?opts c \<Longrightarrow> set (pool_of c) \<inter> set ''7,7pE'' \<noteq> {}" by simp
  have "set (pool_of Upper) \<inter> set ''7,7pE'' \<noteq> {}" by (rule c') simp
  moreover have "set (pool_of Lower) \<inter> set ''7,7pE'' \<noteq> {}" by (rule c') simp
  moreover have "set (pool_of Digit) \<inter> set ''7,7pE'' \<noteq> {}" by (rule c') simp
  moreover have "set (pool_of Symbol) \<inter> set ''7,7pE'' \<noteq> {}" by (rule c') simp
  ultimately show ?thesis using h4 g by blast
qed

text \<open>
  Claim C4 as stated, for every valid request, fails where no password is returned.
  For the length 3 with three classes on a generator whose every draw is \<open>0xffffffff\<close>
  the first pick never returns; for the length \<open>2^32\<close> with two classes, on a stream that
  serves every call, \<^verbatim>\<open>push\<close> throws while the buffer is filled. Both requests are
  valid, and there is no password to contain a character of each class.
\<close>

theorem generatePassword_covers_counterexample:
  "generatePassword \<lparr>hasCrypto = True, getRandomValues = (\<lambda>k. 0xffffffff),
                     mathRandom = (\<lambda>k. \<lparr>mantissa = 0, shift = 0\<rparr>)\<rparr>
     3 \<lparr>upper = True, lower = True, numbers = True, symbols = False\<rparr> 0 = None
   \<and> generatePassword \<lparr>hasCrypto = True, getRandomValues = (\<lambda>k. 0),
                        mathRandom = (\<lambda>k. \<lparr>mantissa = 0, shift = 0\<rparr>)\<rparr>
     4294967296 \<lparr>upper = True, lower = True, numbers = False, symbols = False\<rparr> 0
     = Some (Inl RangeError)"
proof
  let ?e = "\<lparr>hasCrypto = True, getRandomValues = (\<lambda>k. 0xffffffff),
             mathRandom = (\<lambda>k. \<lparr>mantissa = 0, shift = 0\<rparr>)\<rparr>"
  have "rejectionLoop (getRandomValues ?e) (uint32Max - uint32Max mod 26) 26 0 = None"
    by (rule rejectionLoop_None) (simp add: uint32Max_def)
  then have "secureRandomInt ?e 26 0 = None"
    by (simp add: secureRandomInt_def Let_def)
  then show "generatePassword ?e 3 \<lparr>upper = True, lower = True, numbers = True, symbols = False\<rparr> 0 = None"
    by (simp add: generatePassword_def buildPools_def pickOne_def CHARSETS_upper_def)
next
  let ?z = "\<lparr>hasCrypto = True, getRandomValues = (\<lambda>k. 0),
             mathRandom = (\<lambda>k. \<lparr>mantissa = 0, shift = 0\<rparr>)\<rparr>"
  have "served ?z ms k" if "\<forall>m \<in> set ms. 0 < m \<and> m < 2 ^ 32" for ms k
    using drawsServe_zero[of "getRandomValues ?z" ms k] that by (simp add: served_def)
  then show "generatePassword ?z 4294967296
      \<lparr>upper = True, lower = True, numbers = False, symbols = False\<rparr> 0 = Some (Inl RangeError)"
    by (intro generatePassword_overflow) (simp_all add: buildPools_def)
qed

text \<open>
  Claim C5. The validation runs in order and the first failure wins. With no class
  enabled the result is the failure \<^verbatim>\<open>Select at least one character option.\<close> (the kind
  NoCharacterClassSelected), whatever the length; otherwise, with a length below the
  number of selected pools, it is the failure \<^verbatim>\<open>Length must be at least n to include each
  selected type.\<close> (the kind LengthTooShortForSelection), where \<open>n\<close> is the number of
  selected pools in decimal. Every result with a non-empty error carries the empty
  password.
\<close>

theorem generatePassword_validation:
  "(buildPools opts = [] \<longrightarrow>
      generatePassword e len opts k =
        Some (Inr (\<lparr>password = '''', error = ''Select at least one character option.''\<rparr>, k)))
   \<and> (buildPools opts \<noteq> [] \<and> len < int (length (buildPools opts)) \<longrightarrow>
      generatePassword e len opts k =
        Some (Inr (\<lparr>password = '''',
                    error = ''Length must be at least '' @ string_of_nat (length (buildPools opts))
                            @ '' to include each selected type.''\<rparr>, k)))
   \<and> (\<forall>r k'. generatePassword e len opts k = Some (Inr (r, k')) \<and> error r \<noteq> '''' \<longrightarrow>
        password r = '''')"
proof (intro conjI allI impI)
  assume "buildPools opts = []"
  then show "generatePassword e len opts k =
        Some (Inr (\<lparr>password = '''', error = ''Select at least one character option.''\<rparr>, k))"
    by (simp add: generatePassword_def)
next
  assume "buildPools opts \<noteq> [] \<and> len < int (length (buildPools opts))"
  then show "generatePassword e len opts k =
        Some (Inr (\<lparr>password = '''',
                    error = ''Length must be at least '' @ string_of_nat (length (buildPools opts))
                            @ '' to include each selected type.''\<rparr>, k))"
    by (simp add: generatePassword_def Let_def)
next
  fix r k'
  assume a: "generatePassword e len opts k = Some (Inr (r, k')) \<and> error r \<noteq> ''''"
  show "password r = ''''"
  proof (cases "buildPools opts \<noteq> [] \<and> int (length (buildPools opts)) \<le> len")
    case True
    then have v: "buildPools opts \<noteq> []" "int (length (buildPools opts)) \<le> len" by simp_all
    from generatePassword_stages[OF v conjunct1[OF a]] a show ?thesis by auto
  next
    case False
    then consider "buildPools opts = []" | "buildPools opts \<noteq> []" "len < int (length (buildPools opts))"
      by fastforce
    then show ?thesis
      using a by cases (auto simp: generatePassword_def Let_def)
  qed
qed

text \<open>Length 10 with no class, and length 2 with three classes: the message names 3.\<close>

theorem generatePassword_validation_witness:
  "generatePassword \<lparr>hasCrypto = True, getRandomValues = (\<lambda>k. 0), mathRandom = (\<lambda>k. \<lparr>mantissa = 0, shift = 0\<rparr>)\<rparr>
      10 \<lparr>upper = False, lower = False, numbers = False, symbols = False\<rparr> 0
     = Some (Inr (\<lparr>password = '''', error = ''Select at least one character option.''\<rparr>, 0))
   \<and> generatePassword \<lparr>hasCrypto = True, getRandomValues = (\<lambda>k. 0), mathRandom = (\<lambda>k. \<lparr>mantissa = 0, shift = 0\<rparr>)\<rparr>
      2 \<lparr>upper = True, lower = True, numbers = True, symbols = False\<rparr> 0
     = Some (Inr (\<lparr>password = '''',
                   error = ''Length must be at least 3 to include each selected type.''\<rparr>, 0))
   \<and> (\<exists>r k'. generatePassword \<lparr>hasCrypto = True, getRandomValues = (\<lambda>k. 0), mathRandom = (\<lambda>k. \<lparr>mantissa = 0, shift = 0\<rparr>)\<rparr>
                 2 \<lparr>upper = True, lower = True, numbers = True, symbols = False\<rparr> 0 = Some (Inr (r, k'))
               \<and> error r \<noteq> '''' \<and> password r = '''')"
proof -
  let ?e = "\<lparr>hasCrypto = True, getRandomValues = (\<lambda>k. 0), mathRandom = (\<lambda>k. \<lparr>mantissa = 0, shift = 0\<rparr>)\<rparr>"
  let ?none = "\<lparr>upper = False, lower = False, numbers = False, symbols = False\<rparr>"
  let ?three = "\<lparr>upper = True, lower = True, numbers = True, symbols = False\<rparr>"
  let ?r = "\<lparr>password = '''', error = ''Length must be at least 3 to include each selected type.''\<rparr>"
  have n: "buildPools ?none = []" by (simp add: buildPools_def)
  have t: "buildPools ?three \<noteq> [] \<and> (2::int) < int (length (buildPools ?three))"
    by (simp add: buildPools_def)
  have s: "string_of_nat (length (buildPools ?three)) = ''3''" by code_simp
  note th = generatePassword_validation[of ?three ?e 2 0]
  from conjunct1[OF generatePassword_validation[of ?none ?e 10 0], rule_format, OF n]
  have a: "generatePassword ?e 10 ?none 0
     = Some (Inr (\<lparr>password = '''', error = ''Select at least one character option.''\<rparr>, 0))" .
  from conjunct1[OF conjunct2[OF th], rule_format, OF t]
  have b: "generatePassword ?e 2 ?three 0 = Some (Inr (?r, 0))" unfolding s by simp
  then have "generatePassword ?e 2 ?three 0 = Some (Inr (?r, 0)) \<and> error ?r \<noteq> ''''" by simp
  from conjunct2[OF conjunct2[OF th], rule_format, OF this] b
  have c: "\<exists>r k'. generatePassword ?e 2 ?three 0 = Some (Inr (r, k'))
               \<and> error r \<noteq> '''' \<and> password r = ''''"
    by (intro exI[of _ ?r] exI[of _ 0]) simp
  from a b c show ?thesis by blast
qed

text \<open>
  Claim C6. \<^verbatim>\<open>shuffleInPlace\<close> is the shuffle of the specification run on the indices
  from \<open>length - 1\<close> down to 1: at each index \<open>i\<close> it draws \<open>j\<close> from
  \<^verbatim>\<open>secureRandomInt(i + 1)\<close> and swaps the elements at \<open>i\<close> and \<open>j\<close>, and for
  \<open>0 \<le> j \<le> i < length\<close> that swap exchanges exactly these two elements. Every
  successful result of \<^verbatim>\<open>generatePassword\<close> is the join of the buffer that
  \<^verbatim>\<open>shuffleInPlace\<close> returned for the filled buffer.
\<close>

theorem shuffleInPlace_fisherYates:
  "shuffleInPlace e array k = spec_fisherYates e (rev [1..<length array]) array k
   \<and> (0 \<le> j \<and> j \<le> int i \<and> i < length array \<longrightarrow>
        swapAt array (int i) j = array[i := array ! nat j, nat j := array ! i])
   \<and> (generatePassword e len opts k0 = Some (Inr (r, k')) \<and> error r = '''' \<longrightarrow>
        (\<exists>picks k1 chars k2 chars'.
            mapPickOne e (buildPools opts) k0 = Some (Inr (picks, k1))
          \<and> fillLoop e (concat (buildPools opts)) len picks k1 = Some (Inr (chars, k2))
          \<and> shuffleInPlace e chars k2 = Some (Inr (chars', k'))
          \<and> password r = join chars'))"
proof (intro conjI impI)
  show "shuffleInPlace e array k = spec_fisherYates e (rev [1..<length array]) array k"
  proof (cases "length array")
    case 0
    then show ?thesis by (simp add: shuffleInPlace_def)
  next
    case (Suc n)
    then show ?thesis by (simp only: shuffleInPlace_def diff_Suc_1 shuffleLoop_spec)
  qed
next
  assume "0 \<le> j \<and> j \<le> int i \<and> i < length array"
  then show "swapAt array (int i) j = array[i := array ! nat j, nat j := array ! i]"
    by (simp add: swapAt_in_range)
next
  assume a: "generatePassword e len opts k0 = Some (Inr (r, k')) \<and> error r = ''''"
  then have g: "generatePassword e len opts k0 = Some (Inr (r, k'))" and ok: "error r = ''''"
    by simp_all
  from generatePassword_success_valid[OF g ok]
  have v: "buildPools opts \<noteq> []" "int (length (buildPools opts)) \<le> len" by simp_all
  from generatePassword_stages[OF v g]
  show "\<exists>picks k1 chars k2 chars'.
            mapPickOne e (buildPools opts) k0 = Some (Inr (picks, k1))
          \<and> fillLoop e (concat (buildPools opts)) len picks k1 = Some (Inr (chars, k2))
          \<and> shuffleInPlace e chars k2 = Some (Inr (chars', k'))
          \<and> password r = join chars'"
    by fastforce
qed

text \<open>The array \<^verbatim>\<open>a, b, c, d\<close> on the draws \<open>3, 10, 17\<close>: the indices 3, 2, 1 draw
  3, 1, 1, and only \<^verbatim>\<open>b\<close> and \<^verbatim>\<open>c\<close> change places.\<close>

theorem shuffleInPlace_fisherYates_witness:
  "shuffleInPlace \<lparr>hasCrypto = True, getRandomValues = (\<lambda>k. word_of_nat (k * 7 + 3)), mathRandom = (\<lambda>k. \<lparr>mantissa = 0, shift = 0\<rparr>)\<rparr>
      [Str ''a'', Str ''b'', Str ''c'', Str ''d''] 0
     = Some (Inr ([Str ''a'', Str ''c'', Str ''b'', Str ''d''], 3))
   \<and> spec_fisherYates \<lparr>hasCrypto = True, getRandomValues = (\<lambda>k. word_of_nat (k * 7 + 3)), mathRandom = (\<lambda>k. \<lparr>mantissa = 0, shift = 0\<rparr>)\<rparr>
      [3, 2, 1] [Str ''a'', Str ''b'', Str ''c'', Str ''d''] 0
     = Some (Inr ([Str ''a'', Str ''c'', Str ''b'', Str ''d''], 3))
   \<and> swapAt [Str ''a'', Str ''b'', Str ''c'', Str ''d''] 3 1 = [Str ''a'', Str ''d'', Str ''c'', Str ''b'']
   \<and> (\<exists>picks k1 chars k2 chars'.
        mapPickOne \<lparr>hasCrypto = True, getRandomValues = (\<lambda>k. word_of_nat (k * 7 + 3)), mathRandom = (\<lambda>k. \<lparr>mantissa = 0, shift = 0\<rparr>)\<rparr>
          (buildPools \<lparr>upper = True, lower = True, numbers = True, symbols = False\<rparr>) 0 = Some (Inr (picks, k1))
      \<and> fillLoop \<lparr>hasCrypto = True, getRandomValues = (\<lambda>k. word_of_nat (k * 7 + 3)), mathRandom = (\<lambda>k. \<lparr>mantissa = 0, shift = 0\<rparr>)\<rparr>
          (concat (buildPools \<lparr>upper = True, lower = True, numbers = True, symbols = False\<rparr>)) 6 picks k1
          = Some (Inr (chars, k2))
      \<and> shuffleInPlace \<lparr>hasCrypto = True, getRandomValues = (\<lambda>k. word_of_nat (k * 7 + 3)), mathRandom = (\<lambda>k. \<lparr>mantissa = 0, shift = 0\<rparr>)\<rparr>
          chars k2 = Some (Inr (chars', 11))
      \<and> ''fkDm7Y'' = join chars')"
proof -
  let ?e = "\<lparr>hasCrypto = True, getRandomValues = (\<lambda>k. word_of_nat (k * 7 + 3)), mathRandom = (\<lambda>k. \<lparr>mantissa = 0, shift = 0\<rparr>)\<rparr>"
  let ?opts = "\<lparr>upper = True, lower = True, numbers = True, symbols = False\<rparr>"
  let ?a = "[Str ''a'', Str ''b'', Str ''c'', Str ''d'']"
  note th = shuffleInPlace_fisherYates[of ?e ?a 0 1 3 6 ?opts 0 "\<lparr>password = ''fkDm7Y'', error = ''''\<rparr>" 11]
  have idx: "rev [1..<length ?a] = [3, 2, 1]" by code_simp
  have s: "spec_fisherYates ?e [3, 2, 1] ?a 0 = Some (Inr ([Str ''a'', Str ''c'', Str ''b'', Str ''d''], 3))"
    by code_simp
  from conjunct1[OF th] have a: "shuffleInPlace ?e ?a 0 = Some (Inr ([Str ''a'', Str ''c'', Str ''b'', Str ''d''], 3))"
    unfolding idx s .
  have r: "(0::int) \<le> 1 \<and> 1 \<le> int 3 \<and> 3 < length ?a" by simp
  from conjunct1[OF conjunct2[OF th], rule_format, OF r]
  have b: "swapAt ?a 3 1 = [Str ''a'', Str ''d'', Str ''c'', Str ''b'']" by simp
  have g: "generatePassword ?e 6 ?opts 0 = Some (Inr (\<lparr>password = ''fkDm7Y'', error = ''''\<rparr>, 11))
           \<and> error \<lparr>password = ''fkDm7Y'', error = ''''\<rparr> = ''''"
    by code_simp
  from conjunct2[OF conjunct2[OF th], rule_format, OF g]
  have c: "\<exists>picks k1 chars k2 chars'.
        mapPickOne ?e (buildPools ?opts) 0 = Some (Inr (picks, k1))
      \<and> fillLoop ?e (concat (buildPools ?opts)) 6 picks k1 = Some (Inr (chars, k2))
      \<and> shuffleInPlace ?e chars k2 = Some (Inr (chars', 11))
      \<and> ''fkDm7Y'' = join chars'" by simp
  from a s b c show ?thesis by blast
qed

text \<open>
  Claim C8. An invalid request (no class enabled, or a length below the number of
  selected classes) has one failure result, the same on every platform, for every
  stream of draws and from every position of the stream, and the position is returned
  unchanged: no value is drawn.
\<close>

theorem generatePassword_invalid_deterministic:
  assumes "buildPools opts = [] \<or> len < int (length (buildPools opts))"
  shows "\<exists>r. error r \<noteq> '''' \<and> password r = ''''
            \<and> (\<forall>e k. generatePassword e len opts k = Some (Inr (r, k)))"
proof (cases "buildPools opts = []")
  case True
  then have "\<forall>e k. generatePassword e len opts k =
      Some (Inr (\<lparr>password = '''', error = ''Select at least one character option.''\<rparr>, k))"
    by (simp add: generatePassword_def)
  then show ?thesis by (intro exI[of _ "\<lparr>password = '''', error = ''Select at least one character option.''\<rparr>"]) simp
next
  case False
  with assms have "len < int (length (buildPools opts))" by simp
  with False have "\<forall>e k. generatePassword e len opts k =
      Some (Inr (\<lparr>password = '''',
                  error = ''Length must be at least '' @ string_of_nat (length (buildPools opts))
                          @ '' to include each selected type.''\<rparr>, k))"
    by (simp add: generatePassword_def Let_def)
  then show ?thesis
    by (intro exI[of _ "\<lparr>password = '''',
                  error = ''Length must be at least '' @ string_of_nat (length (buildPools opts))
                          @ '' to include each selected type.''\<rparr>"]) simp
qed

text \<open>Length 2 with three classes.\<close>

theorem generatePassword_invalid_deterministic_witness:
  "(buildPools \<lparr>upper = True, lower = True, numbers = True, symbols = False\<rparr> = []
      \<or> 2 < int (length (buildPools \<lparr>upper = True, lower = True, numbers = True, symbols = False\<rparr>)))
   \<and> (\<exists>r. error r \<noteq> '''' \<and> password r = ''''
          \<and> (\<forall>e k. generatePassword e 2 \<lparr>upper = True, lower = True, numbers = True, symbols = False\<rparr> k
                       = Some (Inr (r, k))))"
proof -
  have h: "buildPools \<lparr>upper = True, lower = True, numbers = True, symbols = False\<rparr> = []
      \<or> 2 < int (length (buildPools \<lparr>upper = True, lower = True, numbers = True, symbols = False\<rparr>))"
    by (simp add: buildPools_def)
  from generatePassword_invalid_deterministic[OF h] h show ?thesis by blast
qed

text \<open>
  Claim C10. \<^verbatim>\<open>generatePassword\<close> never ends in the error of \<^verbatim>\<open>secureRandomInt\<close>:
  \<^verbatim>\<open>secureRandomInt\<close> throws exactly on a bound that is not positive, every pool that
  \<^verbatim>\<open>pickOne\<close> is given is non-empty, and so is the combined pool once a class is enabled,
  so neither \<^verbatim>\<open>pickOne\<close> nor the shuffle reaches that branch. The only exception
  \<^verbatim>\<open>generatePassword\<close> can end in is the \<^verbatim>\<open>RangeError\<close> of \<^verbatim>\<open>push\<close>, for a length of \<open>2^32\<close>
  or more. The failure \<^verbatim>\<open>No characters available with current options.\<close> of the
  combined-pool test is never returned.
\<close>

theorem generatePassword_never_throws:
  "generatePassword e len opts k \<noteq> Some (Inl (Error msg))
   \<and> (generatePassword e len opts k = Some (Inl err) \<longrightarrow> err = RangeError \<and> 2 ^ 32 \<le> len)
   \<and> (\<forall>pool \<in> set (buildPools opts). pool \<noteq> [] \<and> pickOne e pool k1 \<noteq> Some (Inl err))
   \<and> (buildPools opts \<noteq> [] \<longrightarrow>
        concat (buildPools opts) \<noteq> [] \<and> pickOne e (concat (buildPools opts)) k2 \<noteq> Some (Inl err))
   \<and> shuffleInPlace e array k3 \<noteq> Some (Inl err)
   \<and> (\<forall>r k'. generatePassword e len opts k = Some (Inr (r, k')) \<longrightarrow>
        error r \<noteq> ''No characters available with current options.'')
   \<and> (secureRandomInt e m k4 = Some (Inl err) \<longleftrightarrow>
        m \<le> 0 \<and> err = Error ''maxExclusive must be a positive integer'')"
proof (intro conjI ballI allI impI)
  show "generatePassword e len opts k \<noteq> Some (Inl (Error msg))"
    using generatePassword_throws[of e len opts k "Error msg"] by auto
next
  assume "generatePassword e len opts k = Some (Inl err)"
  from generatePassword_throws[OF this] show "err = RangeError" "2 ^ 32 \<le> len" by simp_all
next
  fix pool assume "pool \<in> set (buildPools opts)"
  then show "pool \<noteq> []" by (rule buildPools_nonempty)
  then show "pickOne e pool k1 \<noteq> Some (Inl err)" by (rule pickOne_no_throw)
next
  assume "buildPools opts \<noteq> []"
  then show "concat (buildPools opts) \<noteq> []" by (rule concat_buildPools_nonempty)
  then show "pickOne e (concat (buildPools opts)) k2 \<noteq> Some (Inl err)" by (rule pickOne_no_throw)
next
  show "shuffleInPlace e array k3 \<noteq> Some (Inl err)"
    by (simp add: shuffleInPlace_def shuffleLoop_no_throw)
next
  fix r k'
  assume g: "generatePassword e len opts k = Some (Inr (r, k'))"
  show "error r \<noteq> ''No characters available with current options.''"
  proof (cases "buildPools opts \<noteq> [] \<and> int (length (buildPools opts)) \<le> len")
    case True
    then have v: "buildPools opts \<noteq> []" "int (length (buildPools opts)) \<le> len" by simp_all
    from generatePassword_stages[OF v g] show ?thesis by auto
  next
    case False
    then consider "buildPools opts = []" | "buildPools opts \<noteq> []" "len < int (length (buildPools opts))"
      by fastforce
    then show ?thesis
      using g by cases (auto simp: generatePassword_def Let_def)
  qed
next
  show "secureRandomInt e m k4 = Some (Inl err) \<longleftrightarrow>
        m \<le> 0 \<and> err = Error ''maxExclusive must be a positive integer''"
    by (rule secureRandomInt_throws)
qed

text \<open>Length 6 with upper case, lower case and digits; and the bound 0, on which
  \<^verbatim>\<open>secureRandomInt\<close> throws.\<close>

theorem generatePassword_never_throws_witness:
  "generatePassword \<lparr>hasCrypto = True, getRandomValues = (\<lambda>k. word_of_nat (k * 7 + 3)), mathRandom = (\<lambda>k. \<lparr>mantissa = 0, shift = 0\<rparr>)\<rparr>
      6 \<lparr>upper = True, lower = True, numbers = True, symbols = False\<rparr> 0
     = Some (Inr (\<lparr>password = ''fkDm7Y'', error = ''''\<rparr>, 11))
   \<and> error \<lparr>password = ''fkDm7Y'', error = ''''\<rparr> \<noteq> ''No characters available with current options.''
   \<and> CHARSETS_numbers \<noteq> []
   \<and> concat (buildPools \<lparr>upper = True, lower = True, numbers = True, symbols = False\<rparr>) \<noteq> []
   \<and> secureRandomInt \<lparr>hasCrypto = True, getRandomValues = (\<lambda>k. word_of_nat (k * 7 + 3)), mathRandom = (\<lambda>k. \<lparr>mantissa = 0, shift = 0\<rparr>)\<rparr> 0 0
       = Some (Inl (Error ''maxExclusive must be a positive integer''))"
proof -
  let ?e = "\<lparr>hasCrypto = True, getRandomValues = (\<lambda>k. word_of_nat (k * 7 + 3)), mathRandom = (\<lambda>k. \<lparr>mantissa = 0, shift = 0\<rparr>)\<rparr>"
  let ?opts = "\<lparr>upper = True, lower = True, numbers = True, symbols = False\<rparr>"
  note th = generatePassword_never_throws[of ?e 6 ?opts 0 "[]" "Error (''maxExclusive must be a positive integer'')" 0 0 "[]" 0 0 0]
  have g: "generatePassword ?e 6 ?opts 0 = Some (Inr (\<lparr>password = ''fkDm7Y'', error = ''''\<rparr>, 11))"
    by code_simp
  have p: "CHARSETS_numbers \<in> set (buildPools ?opts)" by (simp add: buildPools_def)
  have n: "buildPools ?opts \<noteq> []" by (simp add: buildPools_def)
  from th p have a: "CHARSETS_numbers \<noteq> []" by blast
  from th n have b: "concat (buildPools ?opts) \<noteq> []" by blast
  from th g have c: "error \<lparr>password = ''fkDm7Y'', error = ''''\<rparr> \<noteq> ''No characters available with current options.''"
    by blast
  from th have d: "secureRandomInt ?e 0 0 = Some (Inl (Error ''maxExclusive must be a positive integer''))"
    by simp
  from g a b c d show ?thesis by blast
qed

end
